theory Spec2Isabelle
  imports
    Main
    "HOL-Library.Multiset"
    "HOL-Library.Char_ord"
    "HOL-Library.List_Lexorder"
    "HOL-Library.Word"
begin

section \<open>Data model\<close>

text \<open>
  A \<open>LazyFile\<close> object is mutable (its two cache fields are filled on first access), and
  the lists handed to the matcher hold references to such objects. The model therefore
  keeps an explicit store: a reference is an address, the heap maps every address to the
  object's current fields. Python has no dangling references, so the heap is total.
  The fields \<open>_size\<close> and \<open>_sha1\<close> of the source are \<open>cached_size\<close> and
  \<open>cached_sha1\<close> here; \<open>None\<close> is Python's \<open>None\<close>.
\<close>

type_synonym byte = "8 word"
type_synonym ref = nat

datatype error = OSError string | KeyError

record LazyFile =
  full_path :: string
  cached_size :: "nat option"
  cached_sha1 :: "string option"

text \<open>
  Everything the program does to the outside is appended to a log: a \<open>Stat\<close> for
  \<open>os.path.getsize\<close>, a \<open>ReadFile\<close> for opening and reading a file, a
  \<open>WriteFile\<close> with the text written, a \<open>Print\<close> for a line on standard output.
\<close>

datatype io_event =
    Stat string
  | ReadFile string
  | WriteFile string string
  | Print string

record world =
  heap :: "ref \<Rightarrow> LazyFile"
  next_ref :: ref
  io_log :: "io_event list"

text \<open>
  The operating system and \<open>hashlib\<close> are not part of the repository; what they answer
  is a parameter of the model. \<open>walk\<close> is the sequence of triples
  \<open>(dirpath, dirnames, filenames)\<close> that \<open>os.walk\<close> yields, \<open>open_rb\<close> the bytes
  of a file opened for reading, \<open>open_w\<close> the error (if any) of opening a file for
  writing, \<open>sha1_hexdigest\<close> the hexadecimal SHA-1 digest of a byte string.
\<close>

record env =
  isfile :: "string \<Rightarrow> bool"
  walk :: "string \<Rightarrow> (string \<times> string list \<times> string list) list"
  getsize :: "string \<Rightarrow> error + nat"
  open_rb :: "string \<Rightarrow> error + byte list"
  open_w :: "string \<Rightarrow> error option"
  sha1_hexdigest :: "byte list \<Rightarrow> string"

definition HASH_BUF_BYTES :: nat where
  "HASH_BUF_BYTES = 65536"

definition IGNORED_FILES :: "string list" where
  "IGNORED_FILES = [''.DS_Store'', ''.gdoc'', ''.gsheet'', ''.gslides'']"

section \<open>The file descriptor\<close>

definition new_LazyFile :: "string \<Rightarrow> world \<Rightarrow> ref \<times> world" where
  "new_LazyFile p w =
     (next_ref w,
      w\<lparr>heap := (heap w)(next_ref w :=
            \<lparr>full_path = p, cached_size = None, cached_sha1 = None\<rparr>),
        next_ref := Suc (next_ref w)\<rparr>)"

text \<open>The property \<open>size\<close>: one \<open>os.path.getsize\<close> when the cache is empty.\<close>

definition LazyFile_size :: "env \<Rightarrow> world \<Rightarrow> ref \<Rightarrow> error + (nat \<times> world)" where
  "LazyFile_size e w r =
     (case cached_size (heap w r) of
        Some n \<Rightarrow> Inr (n, w)
      | None \<Rightarrow>
          (case getsize e (full_path (heap w r)) of
             Inl err \<Rightarrow> Inl err
           | Inr n \<Rightarrow>
               Inr (n, w\<lparr>heap := (heap w)(r := (heap w r)\<lparr>cached_size := Some n\<rparr>),
                         io_log := io_log w @ [Stat (full_path (heap w r))]\<rparr>)))"

text \<open>
  The reading loop of \<open>sha1\<close>: \<open>f.read(HASH_BUF_BYTES)\<close> until it returns no data.
  \<open>hashlib\<close> digests the concatenation of the chunks it was fed, so the loop collects
  them in \<open>fed\<close>; \<open>rest\<close> is what the file still holds. A file that opens is read
  to its end: the only failure of \<open>sha1\<close> in the model is that of \<open>open\<close>.
\<close>

function read_loop :: "byte list \<Rightarrow> byte list \<Rightarrow> byte list" where
  "read_loop fed rest =
     (let data = take HASH_BUF_BYTES rest
      in if data = [] then fed
         else read_loop (fed @ data) (drop HASH_BUF_BYTES rest))"
  by pat_completeness auto
termination
  by (relation "measure (\<lambda>(fed, rest). length rest)") (auto simp: HASH_BUF_BYTES_def)

declare read_loop.simps [simp del]

definition LazyFile_sha1 :: "env \<Rightarrow> world \<Rightarrow> ref \<Rightarrow> error + (string \<times> world)" where
  "LazyFile_sha1 e w r =
     (case cached_sha1 (heap w r) of
        Some d \<Rightarrow> Inr (d, w)
      | None \<Rightarrow>
          (case open_rb e (full_path (heap w r)) of
             Inl err \<Rightarrow> Inl err
           | Inr content \<Rightarrow>
               (let d = sha1_hexdigest e (read_loop [] content)
                in Inr (d, w\<lparr>heap := (heap w)(r := (heap w r)\<lparr>cached_sha1 := Some d\<rparr>),
                            io_log := io_log w @ [ReadFile (full_path (heap w r))]\<rparr>))))"

text \<open>\<open>str.endswith\<close>, and the loop of \<open>ignored_by_path\<close> over the patterns.\<close>

definition endswith :: "string \<Rightarrow> string \<Rightarrow> bool" where
  "endswith s pattern =
     (length pattern \<le> length s \<and> drop (length s - length pattern) s = pattern)"

fun ignored_loop :: "string \<Rightarrow> string list \<Rightarrow> bool" where
  "ignored_loop p [] = False"
| "ignored_loop p (pattern # patterns) =
     (if endswith p pattern then True else ignored_loop p patterns)"

definition ignored_by_path :: "LazyFile \<Rightarrow> bool" where
  "ignored_by_path f = ignored_loop (full_path f) IGNORED_FILES"

section \<open>Grouping and matching\<close>

text \<open>
  A key function is any callable: it may read and change the state and it may raise.
  A dictionary keeps its keys in insertion order, so it is an association list with
  distinct keys. \<open>res.setdefault(k, []).append(f)\<close> appends to the list stored under
  \<open>k\<close>, after inserting an empty one when \<open>k\<close> is new.
\<close>

type_synonym ('s, 'k) keyfun = "'s \<Rightarrow> ref \<Rightarrow> error + ('k \<times> 's)"
type_synonym 'k groups = "('k \<times> ref list) list"

fun setdefault_append :: "'k groups \<Rightarrow> 'k \<Rightarrow> ref \<Rightarrow> 'k groups" where
  "setdefault_append [] k f = [(k, [f])]"
| "setdefault_append ((k', fs) # res) k f =
     (if k' = k then (k', fs @ [f]) # res else (k', fs) # setdefault_append res k f)"

fun group_loop :: "('s, 'k) keyfun \<Rightarrow> ref list \<Rightarrow> 'k groups \<Rightarrow> 's \<Rightarrow> error + ('k groups \<times> 's)" where
  "group_loop func [] res s = Inr (res, s)"
| "group_loop func (f # files) res s =
     (case func s f of
        Inl err \<Rightarrow> Inl err
      | Inr (k, s') \<Rightarrow> group_loop func files (setdefault_append res k f) s')"

definition group_by :: "ref list \<Rightarrow> ('s, 'k) keyfun \<Rightarrow> 's \<Rightarrow> error + ('k groups \<times> 's)" where
  "group_by files func s = group_loop func files [] s"

text \<open>\<open>d[k]\<close> raises \<open>KeyError\<close> for a key that is not in the dictionary.\<close>

definition getitem :: "'k groups \<Rightarrow> 'k \<Rightarrow> error + ref list" where
  "getitem d k = (case map_of d k of None \<Rightarrow> Inl KeyError | Some v \<Rightarrow> Inr v)"

text \<open>\<open>list(itertools.chain.from_iterable([scratch_group[k] for k in keys]))\<close>\<close>

fun chain_groups :: "'k groups \<Rightarrow> 'k list \<Rightarrow> error + ref list" where
  "chain_groups d [] = Inr []"
| "chain_groups d (k # ks) =
     (case getitem d k of
        Inl err \<Rightarrow> Inl err
      | Inr v \<Rightarrow> (case chain_groups d ks of Inl err \<Rightarrow> Inl err | Inr vs \<Rightarrow> Inr (v @ vs)))"

text \<open>
  The loop \<open>for k in matching_keys\<close> of \<open>match_by\<close>; \<open>rec\<close> is the recursive call
  on the remaining key functions.
\<close>

fun match_loop ::
  "('s \<Rightarrow> ref list \<Rightarrow> ref list \<Rightarrow> error + ((ref list \<times> ref list) \<times> 's)) \<Rightarrow>
   'k groups \<Rightarrow> 'k groups \<Rightarrow> 'k list \<Rightarrow> ref list \<Rightarrow> ref list \<Rightarrow> 's \<Rightarrow>
   error + ((ref list \<times> ref list) \<times> 's)" where
  "match_loop rec scratch_group archive_group [] matching no_match s =
     Inr ((matching, no_match), s)"
| "match_loop rec scratch_group archive_group (k # ks) matching no_match s =
     (case getitem scratch_group k of
        Inl err \<Rightarrow> Inl err
      | Inr sk \<Rightarrow>
     (case getitem archive_group k of
        Inl err \<Rightarrow> Inl err
      | Inr ak \<Rightarrow>
     (case rec s sk ak of
        Inl err \<Rightarrow> Inl err
      | Inr ((match_on_next_key, no_match_on_next_key), s') \<Rightarrow>
          match_loop rec scratch_group archive_group ks
            (matching @ match_on_next_key) (no_match @ no_match_on_next_key) s')))"

text \<open>
  Python does not fix the order in which a \<open>set\<close> is iterated. \<open>set_iter\<close> stands for
  it: given the elements of a set, it returns them in the order of iteration. The
  theorems assume only that it returns the same elements (\<open>set_order\<close>).
\<close>

definition set_order :: "('k list \<Rightarrow> 'k list) \<Rightarrow> bool" where
  "set_order set_iter = (\<forall>ks. mset (set_iter ks) = mset ks)"

fun match_by ::
  "('k list \<Rightarrow> 'k list) \<Rightarrow> 's \<Rightarrow> ref list \<Rightarrow> ref list \<Rightarrow> ('s, 'k) keyfun list \<Rightarrow>
   error + ((ref list \<times> ref list) \<times> 's)" where
  "match_by set_iter s scratch archive [] = Inr ((scratch, []), s)"
| "match_by set_iter s scratch archive (func # funcs) =
     (case group_by scratch func s of
        Inl err \<Rightarrow> Inl err
      | Inr (scratch_group, s1) \<Rightarrow>
     (case group_by archive func s1 of
        Inl err \<Rightarrow> Inl err
      | Inr (archive_group, s2) \<Rightarrow>
     (let matching_keys =
            set_iter [k \<leftarrow> map fst scratch_group. k \<in> set (map fst archive_group)];
          non_matching_keys =
            set_iter [k \<leftarrow> map fst scratch_group. k \<notin> set matching_keys]
      in (case chain_groups scratch_group non_matching_keys of
            Inl err \<Rightarrow> Inl err
          | Inr no_match \<Rightarrow>
              match_loop (\<lambda>s' sk ak. match_by set_iter s' sk ak funcs)
                scratch_group archive_group matching_keys [] no_match s2))))"

section \<open>The key functions of \<open>main\<close>\<close>

text \<open>
  \<open>main\<close> passes \<open>[lambda f: f.size, lambda f: f.sha1]\<close>. The first key is an
  \<open>int\<close>, the second a \<open>str\<close>; both live in one type of keys.
\<close>

datatype keyval = IntKey nat | StrKey string

definition size_key :: "env \<Rightarrow> (world, keyval) keyfun" where
  "size_key e w f =
     (case LazyFile_size e w f of Inl err \<Rightarrow> Inl err | Inr (n, w') \<Rightarrow> Inr (IntKey n, w'))"

definition sha1_key :: "env \<Rightarrow> (world, keyval) keyfun" where
  "sha1_key e w f =
     (case LazyFile_sha1 e w f of Inl err \<Rightarrow> Inl err | Inr (d, w') \<Rightarrow> Inr (StrKey d, w'))"

section \<open>Reading the trees, writing the reports\<close>

text \<open>\<open>os.path.join\<close> of two components (POSIX), \<open>str\<close> of a natural number, \<open>str.join\<close>.\<close>

definition path_join :: "string \<Rightarrow> string \<Rightarrow> string" where
  "path_join a b =
     (if b \<noteq> [] \<and> hd b = CHR ''/'' then b
      else if a = [] \<or> last a = CHR ''/'' then a @ b
      else a @ ''/'' @ b)"

definition digit_char :: "nat \<Rightarrow> char" where
  "digit_char d = ''0123456789'' ! d"

function str_nat :: "nat \<Rightarrow> string" where
  "str_nat n = (if n < 10 then [digit_char n] else str_nat (n div 10) @ [digit_char (n mod 10)])"
  by pat_completeness auto
termination
  by (relation "measure id") auto

declare str_nat.simps [simp del]

fun str_join :: "string \<Rightarrow> string list \<Rightarrow> string" where
  "str_join sep [] = []"
| "str_join sep [x] = x"
| "str_join sep (x # y # ys) = x @ sep @ str_join sep (y # ys)"

text \<open>
  The nested \<open>for\<close> statements of \<open>read_files\<close>: the inner one over the file names of a
  directory, the outer one over the triples of \<open>os.walk\<close>.
\<close>

fun read_filenames ::
  "string \<Rightarrow> string list \<Rightarrow> ref list \<Rightarrow> nat \<Rightarrow> world \<Rightarrow> ref list \<times> nat \<times> world" where
  "read_filenames dirpath [] res total_files w = (res, total_files, w)"
| "read_filenames dirpath (filename # filenames) res total_files w =
     (let full = path_join dirpath filename;
          (lazy, w') = new_LazyFile full w
      in read_filenames dirpath filenames (res @ [lazy]) (total_files + 1) w')"

fun read_walk ::
  "(string \<times> string list \<times> string list) list \<Rightarrow> ref list \<Rightarrow> nat \<Rightarrow> world \<Rightarrow>
   ref list \<times> nat \<times> world" where
  "read_walk [] res total_files w = (res, total_files, w)"
| "read_walk ((dirpath, dirnames, filenames) # triples) res total_files w =
     (let (res', total_files', w') = read_filenames dirpath filenames res total_files w
      in read_walk triples res' total_files' w')"

definition read_files :: "env \<Rightarrow> string \<Rightarrow> world \<Rightarrow> ref list \<times> world" where
  "read_files e directory_or_file w =
     (if isfile e directory_or_file then
        (let (lazy, w') = new_LazyFile directory_or_file w in ([lazy], w'))
      else
        (let (res, total_files, w') = read_walk (walk e directory_or_file) [] 0 w
         in (res, w'\<lparr>io_log := io_log w' @
                [Print (''A total of '' @ str_nat total_files @ '' were contained in '' @
                        directory_or_file)]\<rparr>)))"

text \<open>
  \<open>files.sort()\<close> sorts strings by code point; on \<open>string\<close> this is the lexicographic
  order of the characters' codes.
\<close>

definition write_paths_to_file :: "env \<Rightarrow> world \<Rightarrow> ref list \<Rightarrow> string \<Rightarrow> error + world" where
  "write_paths_to_file e w files out_file =
     (let paths = sort (map (\<lambda>f. full_path (heap w f)) files)
      in case open_w e out_file of
           Some err \<Rightarrow> Inl err
         | None \<Rightarrow>
             Inr (w\<lparr>io_log := io_log w @
                    [WriteFile out_file (str_join ''\<newline>'' paths @ ''\<newline>'')]\<rparr>))"

section \<open>The program\<close>

record args =
  args_archive :: string
  args_scratch :: string
  args_output :: "string option"

text \<open>
  \<open>main\<close> returns nothing; the model returns, next to the final state, the values of
  its local variables \<open>scratch\<close> (after the filter), \<open>archive\<close>, \<open>matched\<close> and
  \<open>no_match\<close>.
\<close>

definition main ::
  "(keyval list \<Rightarrow> keyval list) \<Rightarrow> env \<Rightarrow> args \<Rightarrow> world \<Rightarrow>
   error + ((ref list \<times> ref list \<times> ref list \<times> ref list) \<times> world)" where
  "main set_iter e a w =
     (let (scratch, w1) = read_files e (args_scratch a) w;
          (archive, w2) = read_files e (args_archive a) w1;
          scratch = filter (\<lambda>f. \<not> ignored_by_path (heap w2 f)) scratch
      in case match_by set_iter w2 scratch archive [size_key e, sha1_key e] of
           Inl err \<Rightarrow> Inl err
         | Inr ((matched, no_match), w3) \<Rightarrow>
             (let w4 = w3\<lparr>io_log := io_log w3 @
                        [Print (str_nat (length no_match) @ ''/'' @ str_nat (length scratch) @
                                '' scratch files do not appear in the archive ('' @
                                str_nat (length archive) @ '' files).'')]\<rparr>
              in case args_output a of
                   None \<Rightarrow> Inr ((scratch, archive, matched, no_match), w4)
                 | Some out \<Rightarrow>
                     (case write_paths_to_file e w4 matched (path_join out ''duplicates.txt'') of
                        Inl err \<Rightarrow> Inl err
                      | Inr w5 \<Rightarrow>
                          (case write_paths_to_file e w5 no_match (path_join out ''missing.txt'') of
                             Inl err \<Rightarrow> Inl err
                           | Inr w6 \<Rightarrow> Inr ((scratch, archive, matched, no_match), w6)))))"

section \<open>A file system to run the program on\<close>

text \<open>
  The theorems hold for every environment. To run the program on concrete inputs, an
  environment is built from a directory tree. \<open>os.path.isfile\<close> is false for a path
  that does not resolve; \<open>os.walk\<close> ignores the error of listing such a path and yields
  nothing; \<open>os.path.getsize\<close> and \<open>open\<close> raise \<open>OSError\<close>. A directory has the
  size of its own entry, 4096 here, and cannot be opened as a file; a file can be
  written where its parent directory exists.
\<close>

datatype node = File "byte list" | Dir "(string \<times> node) list"

fun split_path :: "string \<Rightarrow> string \<Rightarrow> string list" where
  "split_path cur [] = (if cur = [] then [] else [cur])"
| "split_path cur (c # cs) =
     (if c = CHR ''/'' then (if cur = [] then [] else [cur]) @ split_path [] cs
      else split_path (cur @ [c]) cs)"

fun resolve :: "node \<Rightarrow> string list \<Rightarrow> node option" where
  "resolve n [] = Some n"
| "resolve (File content) (c # cs) = None"
| "resolve (Dir entries) (c # cs) =
     (case map_of entries c of None \<Rightarrow> None | Some n \<Rightarrow> resolve n cs)"

definition lookup_path :: "node \<Rightarrow> string \<Rightarrow> node option" where
  "lookup_path root p = resolve root (split_path [] p)"

fun is_dir :: "node \<Rightarrow> bool" where
  "is_dir (Dir entries) = True"
| "is_dir (File content) = False"

fun walk_node :: "string \<Rightarrow> node \<Rightarrow> (string \<times> string list \<times> string list) list" where
  "walk_node top_path (File content) = []"
| "walk_node top_path (Dir entries) =
     (top_path, map fst (filter (\<lambda>(name, n). is_dir n) entries),
           map fst (filter (\<lambda>(name, n). \<not> is_dir n) entries))
     # concat (map (\<lambda>(name, n). if is_dir n then walk_node (path_join top_path name) n else [])
                  entries)"

definition posix_env :: "node \<Rightarrow> (byte list \<Rightarrow> string) \<Rightarrow> env" where
  "posix_env root digest =
     \<lparr>isfile = (\<lambda>p. case lookup_path root p of Some (File content) \<Rightarrow> True | _ \<Rightarrow> False),
      walk = (\<lambda>p. case lookup_path root p of Some n \<Rightarrow> walk_node p n | None \<Rightarrow> []),
      getsize = (\<lambda>p. case lookup_path root p of
                        Some (File content) \<Rightarrow> Inr (length content)
                      | Some (Dir entries) \<Rightarrow> Inr 4096
                      | None \<Rightarrow> Inl (OSError p)),
      open_rb = (\<lambda>p. case lookup_path root p of
                        Some (File content) \<Rightarrow> Inr content
                      | _ \<Rightarrow> Inl (OSError p)),
      open_w = (\<lambda>p. case lookup_path root p of
                       Some (Dir entries) \<Rightarrow> Some (OSError p)
                     | _ \<Rightarrow>
                         (case resolve root (butlast (split_path [] p)) of
                            Some (Dir entries) \<Rightarrow> None
                          | _ \<Rightarrow> Some (OSError p))),
      sha1_hexdigest = digest\<rparr>"

text \<open>The SHA-1 digests of the three byte strings the examples use: empty, \<open>a\<close>, \<open>b\<close>.\<close>

definition sha1_table :: "byte list \<Rightarrow> string" where
  "sha1_table bs =
     (if bs = [0x61] then ''86f7e437faa5a7fce15d1ddcb9eaeaea377667b8''
      else if bs = [0x62] then ''e9d71f5ee7c92d6dc9e92ffdad17b8bd49418f98''
      else ''da39a3ee5e6b4b0d3255bfef95601890afd80709'')"

definition empty_world :: world where
  "empty_world =
     \<lparr>heap = (\<lambda>r. \<lparr>full_path = [], cached_size = None, cached_sha1 = None\<rparr>),
      next_ref = 0, io_log = []\<rparr>"

text \<open>A small tree, and a state with four descriptors that no access has touched yet.\<close>

definition demo_tree :: node where
  "demo_tree =
     Dir [(''s'', Dir [(''a.txt'', File [0x61]), (''b.txt'', File [0x62]), (''e.txt'', File [])]),
          (''a'', Dir [(''x.bin'', File [0x61])]),
          (''out'', Dir [])]"

definition demo_env :: env where
  "demo_env = posix_env demo_tree sha1_table"

definition demo_world :: world where
  "demo_world =
     \<lparr>heap = (\<lambda>r. \<lparr>full_path = (if r = 0 then ''/s/a.txt'' else if r = 1 then ''/s/b.txt''
                                  else if r = 2 then ''/s/e.txt'' else ''/a/x.bin''),
                     cached_size = None, cached_sha1 = None\<rparr>),
      next_ref = 4, io_log = []\<rparr>"

text \<open>An environment in which none of these files exists any more.\<close>

definition stale_env :: env where
  "stale_env = posix_env (Dir []) sha1_table"

text \<open>
  The environment of the small tree, except that reading \<open>/s/e.txt\<close> raises: a
  descriptor whose digest must not be asked for.
\<close>

definition trap_env :: env where
  "trap_env =
     demo_env\<lparr>open_rb := (\<lambda>p. if p = ''/s/e.txt'' then Inl (OSError p) else open_rb demo_env p)\<rparr>"

text \<open>Three descriptors for the report of the specification's example.\<close>

definition report_world :: world where
  "report_world =
     \<lparr>heap = (\<lambda>r. \<lparr>full_path = (if r = 0 then ''/s/a.txt'' else if r = 1 then ''/s/z.txt''
                                  else ''/s/b.txt''),
                     cached_size = None, cached_sha1 = None\<rparr>),
      next_ref = 3, io_log = []\<rparr>"

text \<open>
  A tree with a noise file on each side: the one in the archive has the content of
  \<open>/s/a.txt\<close>.
\<close>

definition noise_tree :: node where
  "noise_tree =
     Dir [(''s'', Dir [(''a.txt'', File [0x61]), (''.DS_Store'', File [])]),
          (''a'', Dir [(''.DS_Store'', File [0x61])]),
          (''out'', Dir [])]"

definition noise_env :: env where
  "noise_env = posix_env noise_tree sha1_table"

definition noise_args :: args where
  "noise_args = \<lparr>args_archive = ''/a'', args_scratch = ''/s'', args_output = Some ''/out''\<rparr>"

text \<open>A run whose archive root does not exist.\<close>

definition lost_archive_args :: args where
  "lost_archive_args =
     \<lparr>args_archive = ''/nope'', args_scratch = ''/s'', args_output = Some ''/out''\<rparr>"

section \<open>Vocabulary of the statements\<close>

text \<open>
  \<open>members d k\<close> is the list a dictionary holds under \<open>k\<close>, empty when \<open>k\<close> is not
  a key.
\<close>

definition members :: "'k groups \<Rightarrow> 'k \<Rightarrow> ref list" where
  "members d k = (case map_of d k of None \<Rightarrow> [] | Some v \<Rightarrow> v)"

text \<open>
  What a descriptor shows when its size or digest is asked for in state \<open>w\<close>: the cached
  value if there is one, otherwise what the environment answers; \<open>None\<close> when the access
  raises.
\<close>

definition size_value :: "env \<Rightarrow> world \<Rightarrow> ref \<Rightarrow> keyval option" where
  "size_value e w r =
     (case cached_size (heap w r) of
        Some n \<Rightarrow> Some (IntKey n)
      | None \<Rightarrow>
          (case getsize e (full_path (heap w r)) of
             Inl err \<Rightarrow> None
           | Inr n \<Rightarrow> Some (IntKey n)))"

definition sha1_value :: "env \<Rightarrow> world \<Rightarrow> ref \<Rightarrow> keyval option" where
  "sha1_value e w r =
     (case cached_sha1 (heap w r) of
        Some d \<Rightarrow> Some (StrKey d)
      | None \<Rightarrow>
          (case open_rb e (full_path (heap w r)) of
             Inl err \<Rightarrow> None
           | Inr content \<Rightarrow> Some (StrKey (sha1_hexdigest e (read_loop [] content)))))"

text \<open>
  A key function \<open>f\<close> reads the attribute \<open>K\<close> when a call that raises means the
  attribute is undefined, and a call that returns gives the attribute's value and leaves
  every attribute of \<open>Ks\<close>, of every descriptor, as it was. Two descriptors agree on
  \<open>Ks\<close> when they have the same value for each attribute.
\<close>

type_synonym ('s, 'k) attribute = "'s \<Rightarrow> ref \<Rightarrow> 'k option"

definition reads ::
  "('s, 'k) attribute list \<Rightarrow> ('s, 'k) keyfun \<Rightarrow> ('s, 'k) attribute \<Rightarrow> bool" where
  "reads Ks f K =
     (\<forall>s r. case f s r of
              Inl err \<Rightarrow> K s r = None
            | Inr (k, s') \<Rightarrow> K s r = Some k \<and> (\<forall>K' \<in> set Ks. K' s' = K' s))"

definition agree :: "('s, 'k) attribute list \<Rightarrow> 's \<Rightarrow> ref \<Rightarrow> ref \<Rightarrow> bool" where
  "agree Ks s a r = (\<forall>K \<in> set Ks. K s a = K s r)"

text \<open>The text \<open>write_paths_to_file\<close> writes for a list of descriptors.\<close>

definition report_text :: "world \<Rightarrow> ref list \<Rightarrow> string" where
  "report_text w files =
     str_join ''\<newline>'' (sort (map (\<lambda>f. full_path (heap w f)) files)) @ ''\<newline>''"

section \<open>Dictionaries and grouping\<close>

lemma keys_setdefault_append:
  "set (map fst (setdefault_append d k f)) = insert k (set (map fst d))"
  by (induction d k f rule: setdefault_append.induct) auto

lemma distinct_setdefault_append:
  "distinct (map fst d) \<Longrightarrow> distinct (map fst (setdefault_append d k f))"
  by (induction d k f rule: setdefault_append.induct)
     (auto simp: keys_setdefault_append simp flip: set_map)

lemma members_setdefault_append:
  "members (setdefault_append d k f) k' = (if k' = k then members d k @ [f] else members d k')"
  by (induction d k f rule: setdefault_append.induct) (auto simp: members_def)

lemma getitem_members:
  "k \<in> set (map fst d) \<Longrightarrow> getitem d k = Inr (members d k)"
  by (auto simp: getitem_def members_def map_of_eq_None_iff split: option.splits)

lemma getitem_Inr: "getitem d k = Inr v \<Longrightarrow> v = members d k \<and> k \<in> set (map fst d)"
  by (auto simp: getitem_def members_def  split: option.splits dest: map_of_SomeD intro: rev_image_eqI)

lemma chain_groups_members:
  "set ks \<subseteq> set (map fst d) \<Longrightarrow> chain_groups d ks = Inr (concat (map (members d) ks))"
  by (induction ks) (auto simp: getitem_members simp del: set_map)

lemma mset_concat_map_cong:
  "mset ks = mset ks' \<Longrightarrow> mset (concat (map g ks)) = mset (concat (map g ks'))"
  by (metis mset_concat mset_map sum_mset_sum_list)

lemma mset_concat_members_keys:
  "distinct (map fst d) \<Longrightarrow> mset (concat (map (members d) (map fst d))) = mset (concat (map snd d))"
proof -
  assume d: "distinct (map fst d)"
  have "map (members d) (map fst d) = map snd d"
    using d by (auto simp: members_def split: option.splits dest: eq_key_imp_eq_value)
  then show ?thesis by (simp only:)
qed

lemma mset_groups_setdefault_append:
  "mset (concat (map snd (setdefault_append d k f))) = add_mset f (mset (concat (map snd d)))"
  by (induction d k f rule: setdefault_append.induct) auto

lemma group_loop_partition:
  "group_loop func files res s = Inr (d, s') \<Longrightarrow> distinct (map fst res) \<Longrightarrow>
   distinct (map fst d) \<and> mset (concat (map snd d)) = mset (concat (map snd res)) + mset files"
proof (induction files arbitrary: res s)
  case Nil
  then show ?case by simp
next
  case (Cons f files)
  from Cons.prems(1) obtain k s1 where
    k: "func s f = Inr (k, s1)" and
    rest: "group_loop func files (setdefault_append res k f) s1 = Inr (d, s')"
    by (auto split: sum.splits)
  from Cons.IH [OF rest distinct_setdefault_append [OF Cons.prems(2)]]
  show ?case by (simp add: mset_groups_setdefault_append)
qed

lemma group_by_partition:
  "group_by files func s = Inr (d, s') \<Longrightarrow>
   distinct (map fst d) \<and> mset (concat (map snd d)) = mset files"
  using group_loop_partition [of func files "[]" s d s'] by (simp add: group_by_def)

lemma match_loop_partition:
  assumes rec: "\<And>s sk ak m n s'. rec s sk ak = Inr ((m, n), s') \<Longrightarrow> mset m + mset n = mset sk"
  shows "match_loop rec sg ag ks matching no_match s = Inr ((m, n), s') \<Longrightarrow>
         mset m + mset n = mset matching + mset no_match + mset (concat (map (members sg) ks))"
proof (induction ks arbitrary: matching no_match s)
  case Nil
  then show ?case by simp
next
  case (Cons k ks)
  from Cons.prems obtain sk ak m1 n1 s1 where
    sk: "getitem sg k = Inr sk" and
    r: "rec s sk ak = Inr ((m1, n1), s1)" and
    rest: "match_loop rec sg ag ks (matching @ m1) (no_match @ n1) s1 = Inr ((m, n), s')"
    by (auto split: sum.splits)
  have "sk = members sg k" using getitem_Inr [OF sk] by simp
  with Cons.IH [OF rest] rec [OF r] show ?case by (simp add: ac_simps) 
qed

lemma match_by_partition:
  assumes "set_order set_iter"
  shows "match_by set_iter s scratch archive funcs = Inr ((m, n), s') \<Longrightarrow>
         mset m + mset n = mset scratch"
proof (induction funcs arbitrary: s scratch archive m n s')
  case Nil
  then show ?case by simp
next
  case (Cons func funcs)
  let ?rec = "\<lambda>s' sk ak. match_by set_iter s' sk ak funcs"
  from Cons.prems obtain sg s1 ag s2 where
    sg: "group_by scratch func s = Inr (sg, s1)" and
    ag: "group_by archive func s1 = Inr (ag, s2)"
    by (auto split: sum.splits)
  define mk where "mk = set_iter [k \<leftarrow> map fst sg. k \<in> set (map fst ag)]"
  define nk where "nk = set_iter [k \<leftarrow> map fst sg. k \<notin> set mk]"
  from Cons.prems sg ag obtain nm where
    nm: "chain_groups sg nk = Inr nm" and
    loop: "match_loop ?rec sg ag mk [] nm s2 = Inr ((m, n), s')"
    by (auto simp: mk_def nk_def Let_def split: sum.splits)
  have perm: "\<And>ks. mset (set_iter ks) = mset ks" "\<And>ks. set (set_iter ks) = set ks"
    using assms by (auto simp: set_order_def dest: mset_eq_setD)
  have nk_sub: "set nk \<subseteq> set (map fst sg)" by (auto simp: nk_def perm)
  have nm_eq: "nm = concat (map (members sg) nk)"
    using nm chain_groups_members [OF nk_sub] by simp
  have "[k \<leftarrow> map fst sg. k \<notin> set mk] = [k \<leftarrow> map fst sg. \<not> k \<in> set (map fst ag)]"
    by (rule filter_cong) (auto simp: mk_def perm)
  then have keys: "mset mk + mset nk = mset (map fst sg)"
    by (simp add: mk_def nk_def perm del: set_map)
  have "mset m + mset n = mset nm + mset (concat (map (members sg) mk))"
    using match_loop_partition [of ?rec, OF Cons.IH loop] by simp
  also have "\<dots> = mset (concat (map (members sg) (mk @ nk)))" by (simp add: nm_eq)
  also have "\<dots> = mset (concat (map (members sg) (map fst sg)))"
    by (rule mset_concat_map_cong) (simp add: keys)
  also have "\<dots> = mset scratch"
    using group_by_partition [OF sg] mset_concat_members_keys [of sg] by (simp only:)
  finally show ?case .
qed



lemma members_subset: "set (members d k) \<subseteq> set (concat (map snd d))"
proof
  fix x assume "x \<in> set (members d k)"
  then obtain v where "map_of d k = Some v" "x \<in> set v"
    by (cases "map_of d k") (auto simp: members_def)
  then have "(k, v) \<in> set d" "x \<in> set v" by (auto dest: map_of_SomeD)
  then show "x \<in> set (concat (map snd d))" by force
qed

lemma group_by_members:
  "group_by files func s = Inr (d, s') \<Longrightarrow> set (members d k) \<subseteq> set files"
  using group_by_partition [of files func s d s'] members_subset [of d k]
  by (metis set_mset_mset)

lemma group_loop_returns:
  assumes step: "\<And>s r. r \<in> R \<Longrightarrow> I s \<Longrightarrow> \<exists>k s'. func s r = Inr (k, s') \<and> I s'"
  shows "I s \<Longrightarrow> set files \<subseteq> R \<Longrightarrow> \<exists>d s'. group_loop func files res s = Inr (d, s') \<and> I s'"
proof (induction files arbitrary: res s)
  case Nil
  then show ?case by simp
next
  case (Cons f files)
  from step [of f s] Cons.prems obtain k s1 where k: "func s f = Inr (k, s1)" "I s1"
    by auto
  from Cons.IH [OF k(2), of "setdefault_append res k f"] Cons.prems k(1)
  show ?case by simp
qed

lemma match_loop_returns:
  assumes rec: "\<And>s sk ak. I s \<Longrightarrow> set sk \<subseteq> R \<Longrightarrow> set ak \<subseteq> R \<Longrightarrow>
                  \<exists>m n s'. rec s sk ak = Inr ((m, n), s') \<and> I s'"
    and sg: "\<And>k. set (members sg k) \<subseteq> R" and ag: "\<And>k. set (members ag k) \<subseteq> R"
  shows "I s \<Longrightarrow> set ks \<subseteq> set (map fst sg) \<Longrightarrow> set ks \<subseteq> set (map fst ag) \<Longrightarrow>
         \<exists>m n s'. match_loop rec sg ag ks matching no_match s = Inr ((m, n), s') \<and> I s'"
proof (induction ks arbitrary: matching no_match s)
  case Nil
  then show ?case by simp
next
  case (Cons k ks)
  have gs: "getitem sg k = Inr (members sg k)" and ga: "getitem ag k = Inr (members ag k)"
    using Cons.prems by (auto intro!: getitem_members simp del: set_map)
  from rec [OF Cons.prems(1) sg ag, of k k] obtain m1 n1 s1 where
    r: "rec s (members sg k) (members ag k) = Inr ((m1, n1), s1)" "I s1" by blast
  from Cons.IH [OF r(2), of "matching @ m1" "no_match @ n1"] Cons.prems gs ga r(1)
  show ?case by simp
qed

lemma match_by_returns:
  assumes "set_order set_iter"
    and step: "\<And>f s r. f \<in> set funcs \<Longrightarrow> r \<in> R \<Longrightarrow> I s \<Longrightarrow> \<exists>k s'. f s r = Inr (k, s') \<and> I s'"
  shows "I s \<Longrightarrow> set scratch \<subseteq> R \<Longrightarrow> set archive \<subseteq> R \<Longrightarrow>
         \<exists>m n s'. match_by set_iter s scratch archive funcs = Inr ((m, n), s') \<and> I s'"
  using step
proof (induction funcs arbitrary: s scratch archive)
  case Nil
  then show ?case by simp
next
  case (Cons func funcs)
  let ?rec = "\<lambda>s' sk ak. match_by set_iter s' sk ak funcs"
  have f: "\<And>s r. r \<in> R \<Longrightarrow> I s \<Longrightarrow> \<exists>k s'. func s r = Inr (k, s') \<and> I s'"
    using Cons.prems(4) by simp
  from group_loop_returns [of R I func, OF f Cons.prems(1,2)] obtain sg s1 where
    sg: "group_by scratch func s = Inr (sg, s1)" "I s1"
    unfolding group_by_def by blast
  from group_loop_returns [of R I func, OF f sg(2) Cons.prems(3)] obtain ag s2 where
    ag: "group_by archive func s1 = Inr (ag, s2)" "I s2"
    unfolding group_by_def by blast
  define mk where "mk = set_iter [k \<leftarrow> map fst sg. k \<in> set (map fst ag)]"
  define nk where "nk = set_iter [k \<leftarrow> map fst sg. k \<notin> set mk]"
  have perm: "\<And>ks. set (set_iter ks) = set ks"
    using assms(1) by (auto simp: set_order_def dest: mset_eq_setD)
  have nk_sub: "set nk \<subseteq> set (map fst sg)" by (auto simp: nk_def perm)
  have mk_sub: "set mk \<subseteq> set (map fst sg)" "set mk \<subseteq> set (map fst ag)"
    by (auto simp: mk_def perm)
  have rec: "\<And>s sk ak. I s \<Longrightarrow> set sk \<subseteq> R \<Longrightarrow> set ak \<subseteq> R \<Longrightarrow>
                  \<exists>m n s'. ?rec s sk ak = Inr ((m, n), s') \<and> I s'"
    using Cons.IH Cons.prems(4) by simp
  have sgR: "\<And>k. set (members sg k) \<subseteq> R" using group_by_members [OF sg(1)] Cons.prems(2) by blast
  have agR: "\<And>k. set (members ag k) \<subseteq> R" using group_by_members [OF ag(1)] Cons.prems(3) by blast
  from match_loop_returns [of I R ?rec sg ag s2 mk "[]" "concat (map (members sg) nk)",
         OF rec sgR agR ag(2) mk_sub]
  obtain m n s' where
    "match_loop ?rec sg ag mk [] (concat (map (members sg) nk)) s2 = Inr ((m, n), s')" "I s'"
    by blast
  moreover have "match_by set_iter s scratch archive (func # funcs) =
      match_loop ?rec sg ag mk [] (concat (map (members sg) nk)) s2"
    using sg(1) ag(1) chain_groups_members [OF nk_sub]
    by (simp add: Let_def mk_def nk_def del: set_map)
  ultimately show ?case by simp
qed

lemma readsD:
  "reads Obs f K \<Longrightarrow> f s r = Inr (k, s') \<Longrightarrow>
   K s r = Some k \<and> (\<forall>K' \<in> set Obs. K' s' = K' s)"
  unfolding reads_def by (drule spec [of _ s], drule spec [of _ r]) simp

lemma group_loop_reads:
  assumes obs: "reads Obs f K" and K: "K \<in> set Obs"
  shows "group_loop f files res s = Inr (d, s') \<Longrightarrow>
    (\<forall>K' \<in> set Obs. K' s' = K' s) \<and> (\<forall>r \<in> set files. K s r \<noteq> None) \<and>
    (\<forall>k. members d k = members res k @ [r \<leftarrow> files. K s r = Some k]) \<and>
    set (map fst d) = set (map fst res) \<union> {k. \<exists>r \<in> set files. K s r = Some k}"
proof (induction files arbitrary: res s)
  case Nil
  then show ?case by simp
next
  case (Cons x files)
  from Cons.prems obtain k s1 where
    k: "f s x = Inr (k, s1)" and
    rest: "group_loop f files (setdefault_append res k x) s1 = Inr (d, s')"
    by (auto split: sum.splits)
  note o = readsD [OF obs k]
  have Ks1: "K s1 = K s" using o K by simp
  note ih = Cons.IH [OF rest, unfolded Ks1]
  have 2: "\<forall>K' \<in> set Obs. K' s' = K' s" using ih o by simp
  have 3: "\<forall>r \<in> set (x # files). K s r \<noteq> None" using ih o by simp
  have 4: "\<forall>k'. members d k' = members res k' @ [r \<leftarrow> x # files. K s r = Some k']"
    using ih o by (simp add: members_setdefault_append)
  have 5: "set (map fst d) = set (map fst res) \<union> {k. \<exists>r \<in> set (x # files). K s r = Some k}"
    using ih o by (auto simp: keys_setdefault_append simp del: set_map)
  from 2 3 4 5 show ?case by blast
qed

lemma group_by_reads:
  assumes "reads Obs f K" "K \<in> set Obs" "group_by files f s = Inr (d, s')"
  shows "\<forall>K' \<in> set Obs. K' s' = K' s" "\<forall>r \<in> set files. K s r \<noteq> None"
    "members d k = [r \<leftarrow> files. K s r = Some k]"
    "set (map fst d) = {k. \<exists>r \<in> set files. K s r = Some k}"
  using group_loop_reads [OF assms(1,2), of files "[]" s d s'] assms(3)
  by (simp_all add: group_by_def members_def)

lemma match_loop_sets:
  assumes rec: "\<And>s1 sk ak m n s1'. I s1 \<Longrightarrow> rec s1 sk ak = Inr ((m, n), s1') \<Longrightarrow> ak \<noteq> [] \<Longrightarrow>
                  I s1' \<and> set m = G sk ak \<and> set n = H sk ak"
  shows "match_loop rec sg ag ks matching no_match s1 = Inr ((m, n), s') \<Longrightarrow> I s1 \<Longrightarrow>
         \<forall>k \<in> set ks. members ag k \<noteq> [] \<Longrightarrow>
         I s' \<and> set m = set matching \<union> (\<Union>k \<in> set ks. G (members sg k) (members ag k))
              \<and> set n = set no_match \<union> (\<Union>k \<in> set ks. H (members sg k) (members ag k))"
proof (induction ks arbitrary: matching no_match s1)
  case Nil
  then show ?case by simp
next
  case (Cons k ks)
  from Cons.prems(1) obtain sk ak m1 n1 s2 where
    sk: "getitem sg k = Inr sk" and ak: "getitem ag k = Inr ak" and
    r: "rec s1 sk ak = Inr ((m1, n1), s2)" and
    rest: "match_loop rec sg ag ks (matching @ m1) (no_match @ n1) s2 = Inr ((m, n), s')"
    by (auto split: sum.splits)
  have eq: "sk = members sg k" "ak = members ag k"
    using getitem_Inr [OF sk] getitem_Inr [OF ak] by simp_all
  from rec [OF Cons.prems(2) r] Cons.prems(3) eq
  have 1: "I s2" "set m1 = G sk ak" "set n1 = H sk ak" by simp_all
  from Cons.IH [OF rest 1(1)] Cons.prems(3) 1(2,3) eq show ?case by auto
qed

lemma match_by_sets:
  assumes "set_order set_iter"
  shows "list_all2 (reads Obs) funcs Ks \<Longrightarrow> set Ks \<subseteq> set Obs \<Longrightarrow>
         match_by set_iter s scratch archive funcs = Inr ((m, n), s') \<Longrightarrow>
         archive \<noteq> [] \<or> funcs \<noteq> [] \<Longrightarrow>
         (\<forall>K \<in> set Obs. K s' = K s) \<and>
         set m = {r \<in> set scratch. \<exists>a \<in> set archive. agree Ks s a r} \<and>
         set n = {r \<in> set scratch. \<not> (\<exists>a \<in> set archive. agree Ks s a r)}"
proof (induction funcs arbitrary: Ks s scratch archive m n s')
  case Nil
  then show ?case by (cases archive) (auto simp: agree_def)
next
  case (Cons f fs KKs)
  let ?rec = "\<lambda>s' sk ak. match_by set_iter s' sk ak fs"
  from Cons.prems(1) obtain K Ks where
    KKs: "KKs = K # Ks" and obs: "reads Obs f K" and fs: "list_all2 (reads Obs) fs Ks"
    by (auto simp: list_all2_Cons1)
  from Cons.prems(2) KKs have K: "K \<in> set Obs" and Ks: "set Ks \<subseteq> set Obs" by simp_all
  from Cons.prems(3) obtain sg s1 ag s2 where
    sg: "group_by scratch f s = Inr (sg, s1)" and
    ag: "group_by archive f s1 = Inr (ag, s2)"
    by (auto split: sum.splits)
  define mk where "mk = set_iter [k \<leftarrow> map fst sg. k \<in> set (map fst ag)]"
  define nk where "nk = set_iter [k \<leftarrow> map fst sg. k \<notin> set mk]"
  from Cons.prems(3) sg ag obtain nm where
    nm: "chain_groups sg nk = Inr nm" and
    loop: "match_loop ?rec sg ag mk [] nm s2 = Inr ((m, n), s')"
    by (auto simp: mk_def nk_def Let_def split: sum.splits)
  have perm: "\<And>ks. set (set_iter ks) = set ks"
    using assms by (auto simp: set_order_def dest: mset_eq_setD)
  note S = group_by_reads [OF obs K sg]
  note A = group_by_reads [OF obs K ag]
  have K1: "K s1 = K s" using S(1) K by simp
  have Obs2: "\<forall>K' \<in> set Obs. K' s2 = K' s" using S(1) A(1) by simp
  have sgk: "\<And>k. members sg k = [r \<leftarrow> scratch. K s r = Some k]" by (rule S(3))
  have agk: "\<And>k. members ag k = [r \<leftarrow> archive. K s r = Some k]" using A(3) K1 by simp
  have keys_sg: "set (map fst sg) = {k. \<exists>r \<in> set scratch. K s r = Some k}" by (rule S(4))
  have keys_ag: "set (map fst ag) = {k. \<exists>r \<in> set archive. K s r = Some k}" using A(4) K1 by simp
  have mk: "set mk = {k. (\<exists>r \<in> set scratch. K s r = Some k) \<and> (\<exists>a \<in> set archive. K s a = Some k)}"
    unfolding mk_def perm using keys_sg keys_ag by (auto simp del: set_map)
  have nk: "set nk = {k. (\<exists>r \<in> set scratch. K s r = Some k) \<and> \<not> (\<exists>a \<in> set archive. K s a = Some k)}"
    unfolding nk_def perm using keys_sg mk by (auto simp del: set_map)
  have nk_sub: "set nk \<subseteq> set (map fst sg)" using nk keys_sg by (auto simp del: set_map)
  have nm_eq: "nm = concat (map (members sg) nk)"
    using nm chain_groups_members [OF nk_sub] by simp
  define I where "I = (\<lambda>t. \<forall>K' \<in> set Obs. K' t = K' s)"
  define G where "G = (\<lambda>sk ak. {r \<in> set sk. \<exists>a \<in> set ak. agree Ks s a r})"
  define H where "H = (\<lambda>sk ak. {r \<in> set sk. \<not> (\<exists>a \<in> set ak. agree Ks s a r)})"
  have rec: "I t' \<and> set m' = G sk ak \<and> set n' = H sk ak"
    if "I t" "?rec t sk ak = Inr ((m', n'), t')" "ak \<noteq> []" for t sk ak m' n' t'
  proof -
    have "\<forall>K' \<in> set Ks. K' t = K' s" using that(1) Ks by (auto simp: I_def)
    with Cons.IH [OF fs Ks that(2)] that(1,3) show ?thesis
      by (simp add: I_def G_def H_def agree_def)
  qed
  have ne: "\<forall>k \<in> set mk. members ag k \<noteq> []"
    unfolding mk agk by (auto simp: filter_empty_conv)
  have "I s2" using Obs2 by (simp add: I_def)
  have "I s' \<and> set m = set [] \<union> (\<Union>k \<in> set mk. G (members sg k) (members ag k)) \<and>
        set n = set nm \<union> (\<Union>k \<in> set mk. H (members sg k) (members ag k))"
  proof (rule match_loop_sets [of I ?rec G H, OF _ loop \<open>I s2\<close> ne])
    fix s1 sk ak m n s1'
    assume "I s1" "?rec s1 sk ak = Inr ((m, n), s1')" "ak \<noteq> []"
    then show "I s1' \<and> set m = G sk ak \<and> set n = H sk ak" by (rule rec)
  qed
  then have res: "I s'" "set m = (\<Union>k \<in> set mk. G (members sg k) (members ag k))"
    "set n = set nm \<union> (\<Union>k \<in> set mk. H (members sg k) (members ag k))"
    by simp_all
  have some: "\<forall>r \<in> set scratch. K s r \<noteq> None" by (rule S(2))
  have a: "\<forall>K' \<in> set Obs. K' s' = K' s"
    using res(1) by (simp add: I_def)
  have b: "set m = {r \<in> set scratch. \<exists>a \<in> set archive. agree (K # Ks) s a r}"
    unfolding res(2) mk G_def sgk agk using some by (auto simp: agree_def) metis
  have nm_set: "set nm = {r \<in> set scratch.
      \<exists>k. K s r = Some k \<and> \<not> (\<exists>a \<in> set archive. K s a = Some k)}"
    unfolding nm_eq by (auto simp: sgk nk)
  have H_set: "(\<Union>k \<in> set mk. H (members sg k) (members ag k)) = {r \<in> set scratch.
      \<exists>k. K s r = Some k \<and> (\<exists>a \<in> set archive. K s a = Some k) \<and>
          \<not> (\<exists>a \<in> set archive. K s a = Some k \<and> agree Ks s a r)}"
    by (auto simp: H_def sgk agk mk)
  have c: "set n = {r \<in> set scratch. \<not> (\<exists>a \<in> set archive. agree (K # Ks) s a r)}"
    unfolding res(3) nm_set H_set using some by (auto simp: agree_def)
  from a b c show ?case unfolding KKs by blast
qed

section \<open>The key functions \<open>size\<close> and \<open>sha1\<close>\<close>

text \<open>The loop feeds the whole content, so the digest is that of the file.\<close>

lemma read_loop_feeds_all: "read_loop fed rest = fed @ rest"
proof (induction fed rest rule: read_loop.induct)
  case (1 fed rest)
  show ?case
  proof (cases "take HASH_BUF_BYTES rest = []")
    case True
    then have "rest = []" by (simp add: HASH_BUF_BYTES_def)
    then show ?thesis by (simp add: read_loop.simps [of fed "[]"])
  next
    case False
    with "1.IH" [OF refl False]
    have "read_loop (fed @ take HASH_BUF_BYTES rest) (drop HASH_BUF_BYTES rest) = fed @ rest"
      by simp
    with False show ?thesis by (simp add: read_loop.simps [of fed rest])
  qed
qed

lemma LazyFile_size_cached:
  "cached_size (heap w r) = Some n \<Longrightarrow> LazyFile_size e w r = Inr (n, w)"
  by (simp add: LazyFile_size_def)

lemma LazyFile_sha1_cached:
  "cached_sha1 (heap w r) = Some d \<Longrightarrow> LazyFile_sha1 e w r = Inr (d, w)"
  by (simp add: LazyFile_sha1_def)

lemma LazyFile_size_fills:
  "LazyFile_size e w r = Inr (n, w') \<Longrightarrow> cached_size (heap w' r) = Some n"
  by (auto simp: LazyFile_size_def split: option.splits sum.splits)

lemma LazyFile_sha1_fills:
  "LazyFile_sha1 e w r = Inr (d, w') \<Longrightarrow> cached_sha1 (heap w' r) = Some d"
  by (auto simp: LazyFile_sha1_def Let_def split: option.splits sum.splits)

lemma LazyFile_size_keeps:
  "LazyFile_size e w x = Inr (n', w') \<Longrightarrow>
   (cached_size (heap w r) = Some n \<longrightarrow> cached_size (heap w' r) = Some n) \<and>
   cached_sha1 (heap w' r) = cached_sha1 (heap w r)"
  by (auto simp: LazyFile_size_def split: option.splits sum.splits)

lemma LazyFile_sha1_keeps:
  "LazyFile_sha1 e w x = Inr (d', w') \<Longrightarrow>
   (cached_sha1 (heap w r) = Some d \<longrightarrow> cached_sha1 (heap w' r) = Some d) \<and>
   cached_size (heap w' r) = cached_size (heap w r)"
  by (auto simp: LazyFile_sha1_def Let_def split: option.splits sum.splits)

lemma reads_size_key: "reads [size_value e, sha1_value e] (size_key e) (size_value e)"
  unfolding reads_def
  by (auto simp: size_key_def LazyFile_size_def size_value_def sha1_value_def fun_eq_iff
           split: option.splits sum.splits)

lemma reads_sha1_key: "reads [size_value e, sha1_value e] (sha1_key e) (sha1_value e)"
  unfolding reads_def
  by (auto simp: sha1_key_def LazyFile_sha1_def size_value_def sha1_value_def fun_eq_iff Let_def
           split: option.splits sum.splits)

lemma match_by_keys_sets:
  assumes "set_order set_iter"
    and "match_by set_iter w scratch archive [size_key e, sha1_key e] = Inr ((m, n), w')"
  shows "set m = {r \<in> set scratch. \<exists>a \<in> set archive.
                    size_value e w a = size_value e w r \<and> sha1_value e w a = sha1_value e w r}"
    and "set n = {r \<in> set scratch. \<not> (\<exists>a \<in> set archive.
                    size_value e w a = size_value e w r \<and> sha1_value e w a = sha1_value e w r)}"
    and "size_value e w' = size_value e w" and "sha1_value e w' = sha1_value e w"
  using match_by_sets [OF assms(1), of "[size_value e, sha1_value e]" "[size_key e, sha1_key e]"
          "[size_value e, sha1_value e]" w scratch archive m n w'] assms(2)
  by (simp_all add: reads_size_key reads_sha1_key agree_def)

lemma group_loop_footprint:
  assumes step: "\<And>s x k s'. x \<in> R \<Longrightarrow> Q s \<Longrightarrow> f s x = Inr (k, s') \<Longrightarrow> Q s'"
  shows "group_loop f files res s = Inr (d, s') \<Longrightarrow> set files \<subseteq> R \<Longrightarrow> Q s \<Longrightarrow> Q s'"
proof (induction files arbitrary: res s)
  case Nil
  then show ?case by simp
next
  case (Cons x files)
  from Cons.prems(1) obtain k s1 where
    k: "f s x = Inr (k, s1)" and
    rest: "group_loop f files (setdefault_append res k x) s1 = Inr (d, s')"
    by (auto split: sum.splits)
  have "Q s1" using step [OF _ Cons.prems(3) k] Cons.prems(2) by simp
  with Cons.IH [OF rest] Cons.prems(2) show ?case by simp
qed

lemma match_loop_footprint:
  assumes rec: "\<And>t sk ak m n t'. Q t \<Longrightarrow> set sk \<subseteq> R \<Longrightarrow> set ak \<subseteq> R \<Longrightarrow>
                  rec t sk ak = Inr ((m, n), t') \<Longrightarrow> Q t'"
  shows "match_loop rec sg ag ks matching no_match s = Inr ((m, n), s') \<Longrightarrow>
         \<forall>k \<in> set ks. set (members sg k) \<subseteq> R \<and> set (members ag k) \<subseteq> R \<Longrightarrow> Q s \<Longrightarrow> Q s'"
proof (induction ks arbitrary: matching no_match s)
  case Nil
  then show ?case by simp
next
  case (Cons k ks)
  from Cons.prems(1) obtain sk ak m1 n1 s1 where
    sk: "getitem sg k = Inr sk" and ak: "getitem ag k = Inr ak" and
    r: "rec s sk ak = Inr ((m1, n1), s1)" and
    rest: "match_loop rec sg ag ks (matching @ m1) (no_match @ n1) s1 = Inr ((m, n), s')"
    by (auto split: sum.splits)
  have eq: "sk = members sg k" "ak = members ag k"
    using getitem_Inr [OF sk] getitem_Inr [OF ak] by simp_all
  have "Q s1" using rec [OF Cons.prems(3) _ _ r] Cons.prems(2) eq by simp
  with Cons.IH [OF rest] Cons.prems(2) show ?case by simp
qed

lemma match_by_footprint:
  assumes step: "\<And>f s x k s'. f \<in> set funcs \<Longrightarrow> x \<in> R \<Longrightarrow> Q s \<Longrightarrow> f s x = Inr (k, s') \<Longrightarrow> Q s'"
  shows "match_by set_iter s scratch archive funcs = Inr ((m, n), s') \<Longrightarrow>
         set scratch \<subseteq> R \<Longrightarrow> set archive \<subseteq> R \<Longrightarrow> Q s \<Longrightarrow> Q s'"
  using step
proof (induction funcs arbitrary: s scratch archive m n s')
  case Nil
  then show ?case by simp
next
  case (Cons f fs)
  let ?rec = "\<lambda>s' sk ak. match_by set_iter s' sk ak fs"
  from Cons.prems(1) obtain sg s1 ag s2 mk nm where
    sg: "group_by scratch f s = Inr (sg, s1)" and
    ag: "group_by archive f s1 = Inr (ag, s2)" and
    loop: "match_loop ?rec sg ag mk [] nm s2 = Inr ((m, n), s')"
    by (auto simp: Let_def split: sum.splits)
  have f: "Q s'" if "x \<in> R" "Q s" "f s x = Inr (k, s')" for s x k s'
    using Cons.prems(5) [of f x s k s'] that by simp
  have "Q s1"
    using group_loop_footprint [of R Q f scratch "[]" s sg s1] f sg Cons.prems(2,4)
    unfolding group_by_def by blast
  then have "Q s2"
    using group_loop_footprint [of R Q f archive "[]" s1 ag s2] f ag Cons.prems(3)
    unfolding group_by_def by blast
  have sub: "\<forall>k \<in> set mk. set (members sg k) \<subseteq> R \<and> set (members ag k) \<subseteq> R"
    using group_by_members [OF sg] group_by_members [OF ag] Cons.prems(2,3) by blast
  show ?case
  proof (rule match_loop_footprint [of Q R ?rec, OF _ loop sub \<open>Q s2\<close>])
    fix t sk ak m n t'
    assume h: "Q t" "set sk \<subseteq> R" "set ak \<subseteq> R" "?rec t sk ak = Inr ((m, n), t')"
    have later: "Q s'" if "g \<in> set fs" "x \<in> R" "Q s" "g s x = Inr (k, s')" for g s x k s'
      using Cons.prems(5) [of g x s k s'] that by simp
    show "Q t'" by (rule Cons.IH [OF h(4) h(2) h(3) h(1)]) (rule later)
  qed
qed

lemma match_by_short_circuit:
  assumes "set_order set_iter" and obs: "reads Obs f K" and K: "K \<in> set Obs"
    and first: "\<And>s x k s'. Q s \<Longrightarrow> f s x = Inr (k, s') \<Longrightarrow> Q s'"
    and later: "\<And>g s x k s'. g \<in> set fs \<Longrightarrow> x \<noteq> r \<Longrightarrow> Q s \<Longrightarrow> g s x = Inr (k, s') \<Longrightarrow> Q s'"
    and nomatch: "\<forall>a \<in> set archive. K s a \<noteq> K s r"
    and run: "match_by set_iter s scratch archive (f # fs) = Inr ((m, n), s')"
    and "Q s"
  shows "Q s'"
proof -
  let ?rec = "\<lambda>s' sk ak. match_by set_iter s' sk ak fs"
  from run obtain sg s1 ag s2 where
    sg: "group_by scratch f s = Inr (sg, s1)" and
    ag: "group_by archive f s1 = Inr (ag, s2)"
    by (auto split: sum.splits)
  define mk where "mk = set_iter [k \<leftarrow> map fst sg. k \<in> set (map fst ag)]"
  define nk where "nk = set_iter [k \<leftarrow> map fst sg. k \<notin> set mk]"
  from run sg ag obtain nm where
    loop: "match_loop ?rec sg ag mk [] nm s2 = Inr ((m, n), s')"
    by (auto simp: mk_def nk_def Let_def split: sum.splits)
  have perm: "\<And>ks. set (set_iter ks) = set ks"
    using assms(1) by (auto simp: set_order_def dest: mset_eq_setD)
  note S = group_by_reads [OF obs K sg]
  note A = group_by_reads [OF obs K ag]
  have K1: "K s1 = K s" using S(1) K by simp
  have "Q s1"
    using group_loop_footprint [of UNIV Q f scratch "[]" s sg s1] first sg \<open>Q s\<close>
    unfolding group_by_def by blast
  then have "Q s2"
    using group_loop_footprint [of UNIV Q f archive "[]" s1 ag s2] first ag
    unfolding group_by_def by blast
  have mk: "set mk \<subseteq> set (map fst ag)" by (auto simp: mk_def perm)
  have sub: "\<forall>k \<in> set mk. set (members sg k) \<subseteq> - {r} \<and> set (members ag k) \<subseteq> - {r}"
  proof
    fix k assume "k \<in> set mk"
    with mk A(4) K1 obtain a where a: "a \<in> set archive" "K s a = Some k" by (auto simp del: set_map)
    with nomatch have "K s r \<noteq> Some k" by auto
    then show "set (members sg k) \<subseteq> - {r} \<and> set (members ag k) \<subseteq> - {r}"
      unfolding S(3) A(3) K1 by auto
  qed
  show ?thesis
  proof (rule match_loop_footprint [of Q "- {r}" ?rec, OF _ loop sub \<open>Q s2\<close>])
    fix t sk ak m n t'
    assume "Q t" "set sk \<subseteq> - {r}" "set ak \<subseteq> - {r}" "?rec t sk ak = Inr ((m, n), t')"
    then show "Q t'"
      using match_by_footprint [of fs "- {r}" Q set_iter t sk ak m n t'] later by auto
  qed
qed

lemma size_key_cached_sha1:
  "size_key e w x = Inr (k, w') \<Longrightarrow> cached_sha1 (heap w' r) = cached_sha1 (heap w r)"
  by (auto simp: size_key_def LazyFile_size_def split: option.splits sum.splits)

lemma sha1_key_cached_sha1:
  "sha1_key e w x = Inr (k, w') \<Longrightarrow> x \<noteq> r \<Longrightarrow> cached_sha1 (heap w' r) = cached_sha1 (heap w r)"
  by (auto simp: sha1_key_def LazyFile_sha1_def Let_def split: option.splits sum.splits)

lemma group_loop_Inl:
  "group_loop func files res s = Inl err \<Longrightarrow> \<exists>t. \<exists>r \<in> set files. func t r = Inl err"
proof (induction files arbitrary: res s)
  case Nil
  then show ?case by simp
next
  case (Cons x files)
  show ?case
  proof (cases "func s x")
    case (Inl e)
    with Cons.prems have "func s x = Inl err" by simp
    then show ?thesis by auto
  next
    case (Inr ks)
    obtain k s1 where "ks = (k, s1)" by (cases ks)
    with Inr Cons.prems
    have "group_loop func files (setdefault_append res k x) s1 = Inl err" by simp
    from Cons.IH [OF this] show ?thesis by auto
  qed
qed

lemma group_by_raised:
  "group_by files func s = Inl err \<Longrightarrow> \<exists>t. \<exists>r \<in> set files. func t r = Inl err"
  unfolding group_by_def by (rule group_loop_Inl)

lemma match_loop_Inl:
  "match_loop rec sg ag ks matching no_match s = Inl err \<Longrightarrow>
   set ks \<subseteq> set (map fst sg) \<Longrightarrow> set ks \<subseteq> set (map fst ag) \<Longrightarrow>
   \<exists>k \<in> set ks. \<exists>t. rec t (members sg k) (members ag k) = Inl err"
proof (induction ks arbitrary: matching no_match s)
  case Nil
  then show ?case by simp
next
  case (Cons k ks)
  have gs: "getitem sg k = Inr (members sg k)" and ga: "getitem ag k = Inr (members ag k)"
    using Cons.prems(2,3) by (auto intro!: getitem_members simp del: set_map)
  show ?case
  proof (cases "rec s (members sg k) (members ag k)")
    case (Inl e)
    with Cons.prems(1) gs ga have "rec s (members sg k) (members ag k) = Inl err" by simp
    then show ?thesis by auto
  next
    case (Inr res)
    obtain m1 n1 s1 where "res = ((m1, n1), s1)" by (metis surj_pair)
    with Inr Cons.prems(1) gs ga
    have "match_loop rec sg ag ks (matching @ m1) (no_match @ n1) s1 = Inl err" by simp
    from Cons.IH [OF this] Cons.prems(2,3) show ?thesis by auto
  qed
qed

lemma match_by_Inl:
  assumes "set_order set_iter"
  shows "match_by set_iter s scratch archive funcs = Inl err \<Longrightarrow>
         \<exists>f \<in> set funcs. \<exists>t. \<exists>r \<in> set scratch \<union> set archive. f t r = Inl err"
proof (induction funcs arbitrary: s scratch archive)
  case Nil
  then show ?case by simp
next
  case (Cons func funcs)
  let ?rec = "\<lambda>s' sk ak. match_by set_iter s' sk ak funcs"
  show ?case
  proof (cases "group_by scratch func s")
    case (Inl e)
    with Cons.prems have "group_by scratch func s = Inl err" by simp
    from group_by_raised [OF this] show ?thesis by auto
  next
    case (Inr res1)
    obtain sg s1 where sg: "group_by scratch func s = Inr (sg, s1)"
      using Inr by (cases res1) simp
    show ?thesis
    proof (cases "group_by archive func s1")
      case (Inl e)
      with Cons.prems sg have "group_by archive func s1 = Inl err" by simp
      from group_by_raised [OF this] show ?thesis by auto
    next
      case (Inr res2)
      obtain ag s2 where ag: "group_by archive func s1 = Inr (ag, s2)"
        using Inr by (cases res2) simp
      define mk where "mk = set_iter [k \<leftarrow> map fst sg. k \<in> set (map fst ag)]"
      define nk where "nk = set_iter [k \<leftarrow> map fst sg. k \<notin> set mk]"
      have perm: "\<And>ks. set (set_iter ks) = set ks"
        using assms by (auto simp: set_order_def dest: mset_eq_setD)
      have nk_sub: "set nk \<subseteq> set (map fst sg)" by (auto simp: nk_def perm)
      have mk_sub: "set mk \<subseteq> set (map fst sg)" "set mk \<subseteq> set (map fst ag)"
        by (auto simp: mk_def perm)
      have "match_by set_iter s scratch archive (func # funcs) =
          match_loop ?rec sg ag mk [] (concat (map (members sg) nk)) s2"
        using sg ag chain_groups_members [OF nk_sub]
        by (simp add: Let_def mk_def nk_def del: set_map)
      with Cons.prems
      have "match_loop ?rec sg ag mk [] (concat (map (members sg) nk)) s2 = Inl err" by simp
      from match_loop_Inl [OF this mk_sub] obtain k t where
        "match_by set_iter t (members sg k) (members ag k) funcs = Inl err" by auto
      from Cons.IH [OF this] obtain f t' r where
        f: "f \<in> set funcs" "r \<in> set (members sg k) \<union> set (members ag k)" "f t' r = Inl err"
        by auto
      from f(2) group_by_members [OF sg] group_by_members [OF ag]
      have "r \<in> set scratch \<union> set archive" by auto
      with f(1,3) show ?thesis by auto
    qed
  qed
qed

lemma set_iter_Nil: "set_order set_iter \<Longrightarrow> set_iter [] = []"
  using mset_zero_iff by (fastforce simp: set_order_def)

lemma match_by_keys_returns:
  assumes "set_order set_iter"
    and ok: "\<forall>r \<in> set scratch \<union> set archive. size_value e w r \<noteq> None \<and> sha1_value e w r \<noteq> None"
  shows "\<exists>m n w'. match_by set_iter w scratch archive [size_key e, sha1_key e] = Inr ((m, n), w')"
proof -
  define I where "I = (\<lambda>t. size_value e t = size_value e w \<and> sha1_value e t = sha1_value e w)"
  define R where "R = set scratch \<union> set archive"
  have step: "\<exists>k s'. f s r = Inr (k, s') \<and> I s'"
    if "f \<in> set [size_key e, sha1_key e]" "r \<in> R" "I s" for f s r
  proof -
    from that(1) obtain K where K: "K \<in> {size_value e, sha1_value e}"
      "reads [size_value e, sha1_value e] f K"
      using reads_size_key [of e] reads_sha1_key [of e] by auto
    have "K s r \<noteq> None" using K(1) that(2,3) ok by (auto simp: I_def R_def)
    with K(2) that(3) show ?thesis
      unfolding reads_def I_def
      by (cases "f s r") (auto dest!: spec [of _ s] spec [of _ r])
  qed
  have "I w" by (simp add: I_def)
  from match_by_returns [of set_iter "[size_key e, sha1_key e]" R I w scratch archive,
         OF assms(1) _ this]
  show ?thesis using step by (auto simp: R_def)
qed

lemma match_by_keys_Inl:
  assumes "set_order set_iter"
    and "match_by set_iter w scratch archive [size_key e, sha1_key e] = Inl err"
  shows "\<exists>x \<in> set scratch \<union> set archive. size_value e w x = None \<or> sha1_value e w x = None"
proof (rule ccontr)
  assume "\<not> ?thesis"
  then have "\<forall>r \<in> set scratch \<union> set archive. size_value e w r \<noteq> None \<and> sha1_value e w r \<noteq> None"
    by auto
  from match_by_keys_returns [OF assms(1) this] assms(2) show False
    by (simp del: match_by.simps)
qed

lemma match_loop_returns_on:
  assumes rec: "\<And>s sk ak. I s \<Longrightarrow> set sk \<subseteq> R \<Longrightarrow> set ak \<subseteq> R \<Longrightarrow>
                  \<exists>m n s'. rec s sk ak = Inr ((m, n), s') \<and> I s'"
  shows "I s \<Longrightarrow> set ks \<subseteq> set (map fst sg) \<Longrightarrow> set ks \<subseteq> set (map fst ag) \<Longrightarrow>
         \<forall>k \<in> set ks. set (members sg k) \<subseteq> R \<and> set (members ag k) \<subseteq> R \<Longrightarrow>
         \<exists>m n s'. match_loop rec sg ag ks matching no_match s = Inr ((m, n), s') \<and> I s'"
proof (induction ks arbitrary: matching no_match s)
  case Nil
  then show ?case by simp
next
  case (Cons k ks)
  have gs: "getitem sg k = Inr (members sg k)" and ga: "getitem ag k = Inr (members ag k)"
    using Cons.prems(2,3) by (auto intro!: getitem_members simp del: set_map)
  have sub: "set (members sg k) \<subseteq> R" "set (members ag k) \<subseteq> R"
    using Cons.prems(4) by simp_all
  from rec [OF Cons.prems(1) sub] obtain m1 n1 s1 where
    r: "rec s (members sg k) (members ag k) = Inr ((m1, n1), s1)" "I s1" by blast
  have "\<exists>m n s'. match_loop rec sg ag ks (matching @ m1) (no_match @ n1) s1 = Inr ((m, n), s') \<and> I s'"
    using Cons.IH [OF r(2)] Cons.prems(2,3,4) by simp
  with gs ga r(1) show ?case by simp
qed

lemma group_by_returns:
  assumes step: "\<And>s r. r \<in> R \<Longrightarrow> I s \<Longrightarrow> \<exists>k s'. func s r = Inr (k, s') \<and> I s'"
    and "I s" "set files \<subseteq> R"
  shows "\<exists>d s'. group_by files func s = Inr (d, s') \<and> I s'"
  unfolding group_by_def
proof (rule group_loop_returns [of R I func, OF _ assms(2,3)])
  fix s r assume "r \<in> R" "I s"
  then show "\<exists>k s'. func s r = Inr (k, s') \<and> I s'" by (rule step)
qed

lemma key_returns:
  assumes "reads [size_value e, sha1_value e] f K" and "K s r \<noteq> None"
  shows "\<exists>k s'. f s r = Inr (k, s') \<and> size_value e s' = size_value e s \<and>
                 sha1_value e s' = sha1_value e s"
  using assms unfolding reads_def
  by (cases "f s r") (auto dest!: spec [of _ s] spec [of _ r])

lemma match_by_keys_returns_shared:
  assumes so: "set_order set_iter"
    and sizes: "\<forall>x \<in> set scratch \<union> set archive. size_value e w x \<noteq> None"
    and digests: "\<forall>x \<in> set scratch. \<forall>a \<in> set archive.
                    size_value e w x = size_value e w a \<longrightarrow>
                    sha1_value e w x \<noteq> None \<and> sha1_value e w a \<noteq> None"
  shows "\<exists>m n w'. match_by set_iter w scratch archive [size_key e, sha1_key e] = Inr ((m, n), w')"
proof -
  let ?rec = "\<lambda>s' sk ak. match_by set_iter s' sk ak [sha1_key e]"
  define I where "I = (\<lambda>t. size_value e t = size_value e w \<and> sha1_value e t = sha1_value e w)"
  define R where "R = {x. sha1_value e w x \<noteq> None}"
  have "I w" by (simp add: I_def)
  have first: "\<exists>k s'. size_key e s r = Inr (k, s') \<and> I s'"
    if "r \<in> set scratch \<union> set archive" "I s" for s r
  proof -
    have "size_value e s r \<noteq> None" using that sizes by (simp add: I_def)
    from key_returns [OF reads_size_key this] that(2) show ?thesis by (auto simp: I_def)
  qed
  have later: "\<exists>k s'. sha1_key e s r = Inr (k, s') \<and> I s'" if "r \<in> R" "I s" for s r
  proof -
    have "sha1_value e s r \<noteq> None" using that by (simp add: I_def R_def)
    from key_returns [OF reads_sha1_key this] that(2) show ?thesis by (auto simp: I_def)
  qed
  from group_by_returns [of "set scratch \<union> set archive" I "size_key e" w scratch] first \<open>I w\<close>
  obtain sg s1 where sg: "group_by scratch (size_key e) w = Inr (sg, s1)" "I s1" by auto
  from group_by_returns [of "set scratch \<union> set archive" I "size_key e" s1 archive] first sg(2)
  obtain ag s2 where ag: "group_by archive (size_key e) s1 = Inr (ag, s2)" "I s2" by auto
  define mk where "mk = set_iter [k \<leftarrow> map fst sg. k \<in> set (map fst ag)]"
  define nk where "nk = set_iter [k \<leftarrow> map fst sg. k \<notin> set mk]"
  have perm: "\<And>ks. set (set_iter ks) = set ks"
    using so by (auto simp: set_order_def dest: mset_eq_setD)
  have nk_sub: "set nk \<subseteq> set (map fst sg)" by (auto simp: nk_def perm)
  have mk_sub: "set mk \<subseteq> set (map fst sg)" "set mk \<subseteq> set (map fst ag)"
    by (auto simp: mk_def perm)
  have K: "size_value e \<in> set [size_value e, sha1_value e]" by simp
  note S = group_by_reads [OF reads_size_key K sg(1)]
  note A = group_by_reads [OF reads_size_key K ag(1)]
  have K1: "size_value e s1 = size_value e w" using sg(2) by (simp add: I_def)
  have sub: "\<forall>k \<in> set mk. set (members sg k) \<subseteq> R \<and> set (members ag k) \<subseteq> R"
  proof
    fix k assume k: "k \<in> set mk"
    from k mk_sub(1) S(4) obtain x where x: "x \<in> set scratch" "size_value e w x = Some k"
      by (auto simp del: set_map)
    from k mk_sub(2) A(4) K1 obtain a where a: "a \<in> set archive" "size_value e w a = Some k"
      by (auto simp del: set_map)
    have "y \<in> R" if "y \<in> set (members sg k)" for y
    proof -
      from that have "y \<in> set scratch" "size_value e w y = Some k" by (simp_all add: S(3))
      with a digests show ?thesis by (auto simp: R_def)
    qed
    moreover have "b \<in> R" if "b \<in> set (members ag k)" for b
    proof -
      from that have "b \<in> set archive" "size_value e w b = Some k" by (simp_all add: A(3) K1)
      with x digests show ?thesis by (auto simp: R_def)
    qed
    ultimately show "set (members sg k) \<subseteq> R \<and> set (members ag k) \<subseteq> R" by blast
  qed
  have "\<exists>m n s'. match_loop ?rec sg ag mk [] (concat (map (members sg) nk)) s2
          = Inr ((m, n), s') \<and> I s'"
  proof (rule match_loop_returns_on [of I R ?rec, OF _ ag(2) mk_sub sub])
    fix s sk ak
    assume h: "I s" "set sk \<subseteq> R" "set ak \<subseteq> R"
    show "\<exists>m n s'. ?rec s sk ak = Inr ((m, n), s') \<and> I s'"
    proof (rule match_by_returns [of set_iter "[sha1_key e]" R I s sk ak, OF so _ h])
      fix f s r assume "f \<in> set [sha1_key e]" "r \<in> R" "I s"
      then show "\<exists>k s'. f s r = Inr (k, s') \<and> I s'" using later by simp
    qed
  qed
  moreover have "match_by set_iter w scratch archive [size_key e, sha1_key e] =
      match_loop ?rec sg ag mk [] (concat (map (members sg) nk)) s2"
    using sg(1) ag(1) chain_groups_members [OF nk_sub]
    by (simp add: Let_def mk_def nk_def del: set_map)
  ultimately show ?thesis by auto
qed

lemma match_by_empty_scratch:
  assumes "set_order set_iter"
  shows "match_by set_iter s [] archive (func # funcs) =
           (case group_by archive func s of
              Inl err \<Rightarrow> Inl err
            | Inr (archive_group, s') \<Rightarrow> Inr (([], []), s'))"
  by (simp add: group_by_def set_iter_Nil [OF assms] split: sum.splits)

lemma match_by_empty_archive:
  assumes "set_order set_iter"
  shows "match_by set_iter s scratch [] (func # funcs) =
           (case group_by scratch func s of
              Inl err \<Rightarrow> Inl err
            | Inr (scratch_group, s') \<Rightarrow>
                Inr (([], concat (map (members scratch_group) (set_iter (map fst scratch_group)))), s'))"
proof (cases "group_by scratch func s")
  case (Inl err)
  then show ?thesis by simp
next
  case (Inr res)
  obtain sg s' where res: "res = (sg, s')" by (cases res)
  have "mset (set_iter (map fst sg)) = mset (map fst sg)"
    using assms by (simp add: set_order_def)
  then have "set (set_iter (map fst sg)) \<subseteq> set (map fst sg)"
    using mset_eq_setD by blast
  from chain_groups_members [OF this] Inr res show ?thesis
    by (simp add: set_iter_Nil [OF assms] group_by_def [of "[]"])
qed

section \<open>Reading, filtering and reporting\<close>

lemma str_join_lines:
  "xs \<noteq> [] \<Longrightarrow> str_join sep xs @ sep = concat (map (\<lambda>x. x @ sep) xs)"
  by (induction sep xs rule: str_join.induct) simp_all

lemma sorted_perm_unique:
  "sorted xs \<Longrightarrow> mset xs = mset ys \<Longrightarrow> xs = sort ys"
  by (metis properties_for_sort)

lemma write_paths_empty:
  "open_w e out_file = None \<Longrightarrow>
   write_paths_to_file e w [] out_file =
     Inr (w\<lparr>io_log := io_log w @ [WriteFile out_file ''\<newline>'']\<rparr>)"
  by (simp add: write_paths_to_file_def)

lemma write_paths_to_file_Inr:
  "write_paths_to_file e w files out_file = Inr w' \<Longrightarrow>
   w' = w\<lparr>io_log := io_log w @ [WriteFile out_file (report_text w files)]\<rparr>"
  by (auto simp: write_paths_to_file_def report_text_def split: option.splits)

lemma report_text_cong:
  "(\<And>f. full_path (heap w f) = full_path (heap w' f)) \<Longrightarrow> report_text w files = report_text w' files"
  by (simp add: report_text_def)

lemma endswith_iff: "endswith s pattern = (\<exists>pre. s = pre @ pattern)"
proof
  assume "endswith s pattern"
  then have "s = take (length s - length pattern) s @ pattern"
    by (metis append_take_drop_id endswith_def)
  then show "\<exists>pre. s = pre @ pattern" ..
next
  assume "\<exists>pre. s = pre @ pattern"
  then show "endswith s pattern" by (auto simp: endswith_def)
qed

lemma ignored_by_path_iff:
  "ignored_by_path f =
     (\<exists>pre. full_path f = pre @ ''.DS_Store'' \<or> full_path f = pre @ ''.gdoc'' \<or>
            full_path f = pre @ ''.gsheet'' \<or> full_path f = pre @ ''.gslides'')"
  unfolding ignored_by_path_def IGNORED_FILES_def ignored_loop.simps endswith_iff by auto

lemma read_filenames_alloc:
  "read_filenames dirpath filenames res cnt w = (res', cnt', w') \<Longrightarrow>
   res' = res @ [next_ref w ..< next_ref w'] \<and> next_ref w \<le> next_ref w' \<and>
   (\<forall>r < next_ref w. heap w' r = heap w r)"
proof (induction filenames arbitrary: res cnt w)
  case Nil
  then show ?case by simp
next
  case (Cons filename filenames)
  let ?w1 = "snd (new_LazyFile (path_join dirpath filename) w)"
  from Cons.prems have rest:
    "read_filenames dirpath filenames (res @ [next_ref w]) (cnt + 1) ?w1 = (res', cnt', w')"
    by (simp add: new_LazyFile_def Let_def)
  have w1: "next_ref ?w1 = Suc (next_ref w)" "\<forall>r < next_ref w. heap ?w1 r = heap w r"
    by (simp_all add: new_LazyFile_def)
  from Cons.IH [OF rest] w1 show ?case
    by (auto simp: upt_conv_Cons)
qed

lemma read_walk_alloc:
  "read_walk triples res cnt w = (res', cnt', w') \<Longrightarrow>
   res' = res @ [next_ref w ..< next_ref w'] \<and> next_ref w \<le> next_ref w' \<and>
   (\<forall>r < next_ref w. heap w' r = heap w r)"
proof (induction triples arbitrary: res cnt w)
  case Nil
  then show ?case by simp
next
  case (Cons triple triples)
  obtain dirpath dirnames filenames where t: "triple = (dirpath, dirnames, filenames)"
    by (cases triple)
  obtain res1 cnt1 w1 where
    inner: "read_filenames dirpath filenames res cnt w = (res1, cnt1, w1)"
    by (cases "read_filenames dirpath filenames res cnt w")
  with Cons.prems t have rest: "read_walk triples res1 cnt1 w1 = (res', cnt', w')" by simp
  note a = read_filenames_alloc [OF inner]
  note b = Cons.IH [OF rest]
  have "[next_ref w ..< next_ref w'] = [next_ref w ..< next_ref w1] @ [next_ref w1 ..< next_ref w']"
    using a b by (metis le_Suc_ex upt_add_eq_append)
  with a b show ?case by auto
qed

lemma read_files_alloc:
  "read_files e d w = (res, w') \<Longrightarrow>
   res = [next_ref w ..< next_ref w'] \<and> next_ref w \<le> next_ref w' \<and>
   (\<forall>r < next_ref w. heap w' r = heap w r)"
proof (cases "isfile e d")
  case True
  assume "read_files e d w = (res, w')"
  with True show ?thesis by (auto simp: read_files_def new_LazyFile_def)
next
  case False
  assume run: "read_files e d w = (res, w')"
  obtain res1 cnt1 w1 where inner: "read_walk (walk e d) [] 0 w = (res1, cnt1, w1)"
    by (cases "read_walk (walk e d) [] 0 w")
  with run False have "res = res1" "next_ref w' = next_ref w1" "heap w' = heap w1"
    by (auto simp: read_files_def)
  with read_walk_alloc [OF inner] show ?thesis by simp
qed

lemma read_files_missing:
  "\<not> isfile e d \<Longrightarrow> walk e d = [] \<Longrightarrow>
   read_files e d w =
     ([], w\<lparr>io_log := io_log w @ [Print (''A total of 0 were contained in '' @ d)]\<rparr>)"
  by (simp add: read_files_def str_nat.simps digit_char_def)

lemma size_key_heap:
  "size_key e w x = Inr (k, w') \<Longrightarrow> x \<noteq> r \<Longrightarrow> heap w' r = heap w r"
  by (auto simp: size_key_def LazyFile_size_def split: option.splits sum.splits)

lemma sha1_key_heap:
  "sha1_key e w x = Inr (k, w') \<Longrightarrow> x \<noteq> r \<Longrightarrow> heap w' r = heap w r"
  by (auto simp: sha1_key_def LazyFile_sha1_def Let_def split: option.splits sum.splits)

lemma size_key_full_path:
  "size_key e w x = Inr (k, w') \<Longrightarrow> full_path (heap w' r) = full_path (heap w r)"
  by (auto simp: size_key_def LazyFile_size_def split: option.splits sum.splits)

lemma sha1_key_full_path:
  "sha1_key e w x = Inr (k, w') \<Longrightarrow> full_path (heap w' r) = full_path (heap w r)"
  by (auto simp: sha1_key_def LazyFile_sha1_def Let_def split: option.splits sum.splits)

lemma match_by_keys_untouched:
  assumes "match_by set_iter w scratch archive [size_key e, sha1_key e] = Inr ((m, n), w')"
    and "r \<notin> set scratch" "r \<notin> set archive"
  shows "heap w' r = heap w r"
proof (rule match_by_footprint [of "[size_key e, sha1_key e]" "- {r}"
          "\<lambda>t. heap t r = heap w r" set_iter w scratch archive m n w', OF _ assms(1)])
  fix f s x k s'
  assume "f \<in> set [size_key e, sha1_key e]" "x \<in> - {r}" "heap s r = heap w r" "f s x = Inr (k, s')"
  then show "heap s' r = heap w r"
    using size_key_heap [of e s x k s' r] sha1_key_heap [of e s x k s' r] by auto
qed (use assms(2,3) in auto)

lemma match_by_keys_full_path:
  assumes "match_by set_iter w scratch archive [size_key e, sha1_key e] = Inr ((m, n), w')"
  shows "full_path (heap w' r) = full_path (heap w r)"
proof (rule match_by_footprint [of "[size_key e, sha1_key e]" UNIV
          "\<lambda>t. full_path (heap t r) = full_path (heap w r)" set_iter w scratch archive m n w',
          OF _ assms(1)])
  fix f s x k s'
  assume "f \<in> set [size_key e, sha1_key e]" "full_path (heap s r) = full_path (heap w r)"
    "f s x = Inr (k, s')"
  then show "full_path (heap s' r) = full_path (heap w r)"
    using size_key_full_path [of e s x k s' r] sha1_key_full_path [of e s x k s' r] by auto
qed simp_all

lemma main_Inr:
  assumes run: "main set_iter e a w = Inr ((scratch, archive, matched, no_match), w')"
    and rs: "read_files e (args_scratch a) w = (all_scratch, w1)"
    and ra: "read_files e (args_archive a) w1 = (all_archive, w2)"
  shows "archive = all_archive \<and>
         scratch = [f \<leftarrow> all_scratch. \<not> ignored_by_path (heap w2 f)] \<and>
         (\<exists>w3 summary.
            match_by set_iter w2 scratch archive [size_key e, sha1_key e]
              = Inr ((matched, no_match), w3) \<and>
            heap w' = heap w3 \<and>
            io_log w' = io_log w3 @ Print summary #
              (case args_output a of
                 None \<Rightarrow> []
               | Some out \<Rightarrow>
                   [WriteFile (path_join out ''duplicates.txt'') (report_text w3 matched),
                    WriteFile (path_join out ''missing.txt'') (report_text w3 no_match)]))"
proof -
  let ?sc = "[f \<leftarrow> all_scratch. \<not> ignored_by_path (heap w2 f)]"
  let ?keys = "[size_key e, sha1_key e]"
  from run rs ra obtain m n w3 where
    mb: "match_by set_iter w2 ?sc all_archive ?keys = Inr ((m, n), w3)"
    by (cases "match_by set_iter w2 ?sc all_archive ?keys")
       (auto simp: main_def Let_def simp del: match_by.simps)
  define w4 where "w4 = w3\<lparr>io_log := io_log w3 @
      [Print (str_nat (length n) @ ''/'' @ str_nat (length ?sc) @
              '' scratch files do not appear in the archive ('' @
              str_nat (length all_archive) @ '' files).'')]\<rparr>"
  have eq: "main set_iter e a w =
      (case args_output a of
         None \<Rightarrow> Inr ((?sc, all_archive, m, n), w4)
       | Some out \<Rightarrow>
           (case write_paths_to_file e w4 m (path_join out ''duplicates.txt'') of
              Inl err \<Rightarrow> Inl err
            | Inr w5 \<Rightarrow>
                (case write_paths_to_file e w5 n (path_join out ''missing.txt'') of
                   Inl err \<Rightarrow> Inl err
                 | Inr w6 \<Rightarrow> Inr ((?sc, all_archive, m, n), w6))))"
    by (simp only: main_def Let_def rs ra prod.case mb sum.case w4_def)
  show ?thesis
  proof (cases "args_output a")
    case None
    with run eq have "scratch = ?sc" "archive = all_archive" "matched = m" "no_match = n" "w' = w4"
      by simp_all
    with mb None show ?thesis by (simp add: w4_def del: match_by.simps)
  next
    case (Some out)
    let ?dup = "path_join out ''duplicates.txt''" and ?mis = "path_join out ''missing.txt''"
    from run eq Some obtain w5 where
      w5: "write_paths_to_file e w4 m ?dup = Inr w5"
      by (cases "write_paths_to_file e w4 m ?dup") simp_all
    from run eq Some w5 obtain w6 where
      w6: "write_paths_to_file e w5 n ?mis = Inr w6"
      by (cases "write_paths_to_file e w5 n ?mis") simp_all
    from run eq Some w5 w6
    have res: "scratch = ?sc" "archive = all_archive" "matched = m" "no_match = n" "w' = w6"
      by simp_all
    note a = write_paths_to_file_Inr [OF w5]
    note b = write_paths_to_file_Inr [OF w6]
    have "report_text w4 m = report_text w3 m" "report_text w5 n = report_text w3 n"
      by (simp_all add: report_text_def a w4_def)
    with a b have "heap w6 = heap w3"
      "io_log w6 = io_log w3 @ Print (str_nat (length n) @ ''/'' @ str_nat (length ?sc) @
              '' scratch files do not appear in the archive ('' @
              str_nat (length all_archive) @ '' files).'') #
         [WriteFile ?dup (report_text w3 m), WriteFile ?mis (report_text w3 n)]"
      by (simp_all add: w4_def)
    with res mb Some show ?thesis by (simp del: match_by.simps)
  qed
qed

section \<open>Running the examples\<close>

lemma set_order_id: "set_order (\<lambda>ks. ks)"
  by (simp add: set_order_def)

lemma demo_getsize [simp]:
  "getsize demo_env ''/s/a.txt'' = Inr 1" "getsize demo_env ''/s/b.txt'' = Inr 1"
  "getsize demo_env ''/s/e.txt'' = Inr 0" "getsize demo_env ''/a/x.bin'' = Inr 1"
  by (simp_all add: demo_env_def posix_env_def lookup_path_def demo_tree_def)

lemma demo_open [simp]:
  "open_rb demo_env ''/s/a.txt'' = Inr [0x61]" "open_rb demo_env ''/s/b.txt'' = Inr [0x62]"
  "open_rb demo_env ''/s/e.txt'' = Inr []" "open_rb demo_env ''/a/x.bin'' = Inr [0x61]"
  by (simp_all add: demo_env_def posix_env_def lookup_path_def demo_tree_def)

lemma demo_digest [simp]: "sha1_hexdigest demo_env = sha1_table"
  by (simp add: demo_env_def posix_env_def)

lemma read_loop_small [simp]:
  "read_loop fed [] = fed" "read_loop fed [b] = fed @ [b]"
  by (simp_all add: read_loop.simps [of _ "[]"] read_loop.simps [of _ "[b]"] HASH_BUF_BYTES_def)

lemma demo_run:
  "\<exists>w'. match_by (\<lambda>ks. ks) demo_world [0, 1, 2] [3] [size_key demo_env, sha1_key demo_env]
     = Inr (([0], [2, 1]), w')"
  by (simp add: group_by_def size_key_def sha1_key_def LazyFile_size_def LazyFile_sha1_def
        demo_world_def getitem_def sha1_table_def Let_def)

lemma trap_env_simps [simp]:
  "getsize trap_env = getsize demo_env"
  "sha1_hexdigest trap_env = sha1_table"
  "open_rb trap_env ''/s/a.txt'' = Inr [0x61]" "open_rb trap_env ''/s/b.txt'' = Inr [0x62]"
  "open_rb trap_env ''/s/e.txt'' = Inl (OSError ''/s/e.txt'')"
  "open_rb trap_env ''/a/x.bin'' = Inr [0x61]"
  by (simp_all add: trap_env_def)

lemma set_order_rev: "set_order rev"
  by (simp add: set_order_def)

lemma demo_run_sizes:
  "\<exists>w'. match_by rev demo_world [0] [1] [size_key demo_env, sha1_key demo_env]
     = Inr (([], [0]), w')"
  by (simp add: group_by_def size_key_def sha1_key_def LazyFile_size_def LazyFile_sha1_def
        demo_world_def getitem_def sha1_table_def Let_def)

lemma demo_run_empty_scratch:
  "\<exists>w'. match_by rev demo_world [] [3] [size_key demo_env, sha1_key demo_env]
     = Inr (([], []), w')"
  by (simp add: group_by_def size_key_def LazyFile_size_def demo_world_def)

lemma demo_run_empty_archive:
  "\<exists>w'. match_by rev demo_world [0, 2] [] [size_key demo_env, sha1_key demo_env]
     = Inr (([], [2, 0]), w')"
  by (simp add: group_by_def size_key_def LazyFile_size_def demo_world_def getitem_def)

lemma demo_open_w [simp]:
  "open_w demo_env ''/out/missing.txt'' = None" "open_w demo_env ''/out/duplicates.txt'' = None"
  by (simp_all add: demo_env_def posix_env_def lookup_path_def demo_tree_def)

lemma set_order_id_fun: "set_order id"
  by (simp add: set_order_def)

lemma noise_reads:
  "read_files noise_env (args_scratch noise_args) empty_world =
     ([0, 1],
      \<lparr>heap = (heap empty_world)
          (0 := \<lparr>full_path = ''/s/a.txt'', cached_size = None, cached_sha1 = None\<rparr>,
           1 := \<lparr>full_path = ''/s/.DS_Store'', cached_size = None, cached_sha1 = None\<rparr>),
       next_ref = 2, io_log = [Print ''A total of 2 were contained in /s'']\<rparr>)"
  by (simp add: noise_args_def read_files_def noise_env_def posix_env_def lookup_path_def
        noise_tree_def empty_world_def new_LazyFile_def path_join_def str_nat.simps
        digit_char_def)

lemma noise_reads_archive:
  "\<exists>w2. read_files noise_env (args_archive noise_args)
           (snd (read_files noise_env (args_scratch noise_args) empty_world)) = ([2], w2) \<and>
         heap w2 0 = \<lparr>full_path = ''/s/a.txt'', cached_size = None, cached_sha1 = None\<rparr> \<and>
         heap w2 1 = \<lparr>full_path = ''/s/.DS_Store'', cached_size = None, cached_sha1 = None\<rparr>"
  unfolding noise_reads
  by (simp add: noise_args_def read_files_def noise_env_def posix_env_def lookup_path_def
        noise_tree_def empty_world_def new_LazyFile_def path_join_def str_nat.simps
        digit_char_def)

lemma noise_main:
  "\<exists>w'. main id noise_env noise_args empty_world = Inr (([0], [2], [0], []), w') \<and>
         heap w' 1 = \<lparr>full_path = ''/s/.DS_Store'', cached_size = None, cached_sha1 = None\<rparr> \<and>
         full_path (heap w' 2) = ''/a/.DS_Store'' \<and>
         io_log w' =
           [Print ''A total of 2 were contained in /s'',
            Print ''A total of 1 were contained in /a'',
            Stat ''/s/a.txt'', Stat ''/a/.DS_Store'',
            ReadFile ''/s/a.txt'', ReadFile ''/a/.DS_Store'',
            Print ''0/1 scratch files do not appear in the archive (1 files).'',
            WriteFile ''/out/duplicates.txt'' ''/s/a.txt\<newline>'',
            WriteFile ''/out/missing.txt'' ''\<newline>'']"
  by (simp add: main_def noise_args_def read_files_def noise_env_def posix_env_def lookup_path_def
        noise_tree_def empty_world_def new_LazyFile_def path_join_def str_nat.simps digit_char_def
        ignored_by_path_def IGNORED_FILES_def endswith_def
        group_by_def size_key_def sha1_key_def LazyFile_size_def LazyFile_sha1_def
        getitem_def sha1_table_def Let_def write_paths_to_file_def
        read_loop.simps [of _ "[b]" for b] HASH_BUF_BYTES_def)

lemma noise_open_w [simp]:
  "open_w noise_env ''/out/duplicates.txt'' = None"
  by (simp add: noise_env_def posix_env_def lookup_path_def noise_tree_def)

lemma noise_main_lost_archive:
  "\<exists>w'. main id noise_env lost_archive_args empty_world = Inr (([0], [], [], [0]), w')"
  by (simp add: main_def lost_archive_args_def read_files_def noise_env_def posix_env_def
        lookup_path_def noise_tree_def empty_world_def new_LazyFile_def path_join_def
        str_nat.simps digit_char_def ignored_by_path_def IGNORED_FILES_def endswith_def
        group_by_def size_key_def LazyFile_size_def getitem_def Let_def
        write_paths_to_file_def)

section \<open>The claims\<close>

text \<open>
  C1. Whatever the two collections and the key functions are, the matcher returns a pair
  (matched, unmatched), unless a key function raised on one of the descriptors: then the
  matcher fails with that error, and it fails in no other way. The
  pair splits the scratch collection: as multisets the two lists add up to the scratch
  list, so no descriptor is dropped or duplicated; their union is the scratch
  collection; and when the scratch collection holds no descriptor twice, the two are
  disjoint.
\<close>

theorem match_by_partitions_scratch:
  assumes "set_order set_iter"
  shows "case match_by set_iter s scratch archive funcs of
           Inl err \<Rightarrow> (\<exists>f \<in> set funcs. \<exists>t. \<exists>r \<in> set scratch \<union> set archive. f t r = Inl err)
         | Inr ((matched, unmatched), s') \<Rightarrow>
             mset matched + mset unmatched = mset scratch \<and>
             set matched \<union> set unmatched = set scratch \<and>
             (distinct scratch \<longrightarrow> set matched \<inter> set unmatched = {})"
proof (cases "match_by set_iter s scratch archive funcs")
  case (Inl err)
  with match_by_Inl [OF assms Inl] show ?thesis by simp
next
  case (Inr res)
  obtain m n s' where res: "res = ((m, n), s')" by (metis surj_pair)
  from match_by_partition [OF assms Inr [unfolded res]]
  have part: "mset m + mset n = mset scratch" .
  then have perm: "mset (m @ n) = mset scratch" by simp
  have sets: "set m \<union> set n = set scratch"
    using mset_eq_setD [OF perm] by simp
  have "distinct scratch \<longrightarrow> set m \<inter> set n = {}"
    using mset_eq_imp_distinct_iff [OF perm] by auto
  with part sets Inr res show ?thesis by simp
qed

theorem match_by_partitions_scratch_witness:
  "\<exists>matched unmatched w'.
     match_by (\<lambda>ks. ks) demo_world [0, 1, 2] [3] [size_key demo_env, sha1_key demo_env]
       = Inr ((matched, unmatched), w') \<and>
     mset matched + mset unmatched = mset [0, 1, 2] \<and>
     set matched \<union> set unmatched = set [0, 1, 2] \<and>
     set matched \<inter> set unmatched = {}"
proof -
  obtain w' where run:
    "match_by (\<lambda>ks. ks) demo_world [0, 1, 2] [3] [size_key demo_env, sha1_key demo_env]
       = Inr (([0], [2, 1]), w')"
    using demo_run by blast
  have "distinct [0, 1, 2::nat]" by simp
  with match_by_partitions_scratch [OF set_order_id, where s = demo_world
         and scratch = "[0, 1, 2]" and archive = "[3]"
         and funcs = "[size_key demo_env, sha1_key demo_env]"] run
  show ?thesis by (auto simp del: match_by.simps)
qed

text \<open>
  C2. With the key functions of \<open>main\<close>, a scratch descriptor whose size is the size
  of no archive descriptor is classified as unmatched and not as matched, and the run
  leaves its \<open>_sha1\<close> cache as it found it: the digest is never asked of it, a cache
  that was unset stays unset. The run returns even when the digest of this descriptor
  cannot be read: it fails only when some size cannot be read, or when the digest cannot
  be read of another descriptor, one whose size occurs on both sides.
\<close>

theorem short_circuit_on_size:
  assumes "set_order set_iter"
    and "r \<in> set scratch"
    and "\<forall>a \<in> set archive. size_value e w a \<noteq> size_value e w r"
  shows "case match_by set_iter w scratch archive [size_key e, sha1_key e] of
           Inl err \<Rightarrow>
             (\<exists>x \<in> set scratch \<union> set archive. size_value e w x = None) \<or>
             (\<exists>x \<in> set scratch. \<exists>a \<in> set archive.
                x \<noteq> r \<and> a \<noteq> r \<and> size_value e w x = size_value e w a \<and>
                (sha1_value e w x = None \<or> sha1_value e w a = None))
         | Inr ((matched, no_match), w') \<Rightarrow>
             r \<in> set no_match \<and> r \<notin> set matched \<and>
             cached_sha1 (heap w' r) = cached_sha1 (heap w r)"
proof (cases "match_by set_iter w scratch archive [size_key e, sha1_key e]")
  case (Inl err)
  have "(\<exists>x \<in> set scratch \<union> set archive. size_value e w x = None) \<or>
        (\<exists>x \<in> set scratch. \<exists>a \<in> set archive.
           x \<noteq> r \<and> a \<noteq> r \<and> size_value e w x = size_value e w a \<and>
           (sha1_value e w x = None \<or> sha1_value e w a = None))"
  proof (rule ccontr)
    assume neg: "\<not> ?thesis"
    from neg have n1: "\<not> (\<exists>x \<in> set scratch \<union> set archive. size_value e w x = None)"
      by (rule contrapos_nn) (rule disjI1)
    from neg have n2: "\<not> (\<exists>x \<in> set scratch. \<exists>a \<in> set archive.
           x \<noteq> r \<and> a \<noteq> r \<and> size_value e w x = size_value e w a \<and>
           (sha1_value e w x = None \<or> sha1_value e w a = None))"
      by (rule contrapos_nn) (rule disjI2)
    from n1 have sizes: "\<forall>x \<in> set scratch \<union> set archive. size_value e w x \<noteq> None"
      by simp
    have digests: "\<forall>x \<in> set scratch. \<forall>a \<in> set archive.
        size_value e w x = size_value e w a \<longrightarrow>
        sha1_value e w x \<noteq> None \<and> sha1_value e w a \<noteq> None"
    proof (intro ballI impI)
      fix x a
      assume x: "x \<in> set scratch" and a: "a \<in> set archive"
        and eq: "size_value e w x = size_value e w a"
      from assms(3) a have "size_value e w a \<noteq> size_value e w r" by (rule bspec)
      with eq have xr: "x \<noteq> r" and ar: "a \<noteq> r" by auto
      show "sha1_value e w x \<noteq> None \<and> sha1_value e w a \<noteq> None"
      proof (rule ccontr)
        assume "\<not> (sha1_value e w x \<noteq> None \<and> sha1_value e w a \<noteq> None)"
        then have "sha1_value e w x = None \<or> sha1_value e w a = None" by simp
        with xr ar eq have "x \<noteq> r \<and> a \<noteq> r \<and> size_value e w x = size_value e w a \<and>
           (sha1_value e w x = None \<or> sha1_value e w a = None)" by simp
        with a have "\<exists>a \<in> set archive.
           x \<noteq> r \<and> a \<noteq> r \<and> size_value e w x = size_value e w a \<and>
           (sha1_value e w x = None \<or> sha1_value e w a = None)" by (rule rev_bexI)
        with x have "\<exists>x \<in> set scratch. \<exists>a \<in> set archive.
           x \<noteq> r \<and> a \<noteq> r \<and> size_value e w x = size_value e w a \<and>
           (sha1_value e w x = None \<or> sha1_value e w a = None)" by (rule rev_bexI)
        with n2 show False by (rule notE)
      qed
    qed
    from match_by_keys_returns_shared [OF assms(1) sizes digests] Inl show False
      by (simp del: match_by.simps)
  qed
  with Inl show ?thesis by simp
next
  case (Inr res)
  obtain matched no_match w' where res: "res = ((matched, no_match), w')" by (metis surj_pair)
  note run = Inr [unfolded res]
  have "r \<in> set no_match" "r \<notin> set matched"
    using match_by_keys_sets(1,2) [OF assms(1) run] assms(2,3) by auto
  moreover have "cached_sha1 (heap w' r) = cached_sha1 (heap w r)"
    by (rule match_by_short_circuit [of set_iter "[size_value e, sha1_value e]" "size_key e"
              "size_value e" "\<lambda>t. cached_sha1 (heap t r) = cached_sha1 (heap w r)"
              "[sha1_key e]" r archive w scratch matched no_match w',
              OF assms(1) reads_size_key _ _ _ assms(3) run])
       (auto simp: size_key_cached_sha1 sha1_key_cached_sha1)
  ultimately show ?thesis using run by simp
qed

theorem short_circuit_on_size_witness:
  "sha1_value trap_env demo_world 2 = None \<and>
   size_value trap_env demo_world 3 \<noteq> size_value trap_env demo_world 2 \<and>
   (\<exists>matched no_match w'.
     match_by (\<lambda>ks. ks) demo_world [0, 1, 2] [3] [size_key trap_env, sha1_key trap_env]
       = Inr ((matched, no_match), w') \<and>
     2 \<in> set no_match \<and> 2 \<notin> set matched \<and> cached_sha1 (heap w' 2) = None)"
proof -
  let ?run = "match_by (\<lambda>ks. ks) demo_world [0, 1, 2] [3] [size_key trap_env, sha1_key trap_env]"
  have sz: "size_value trap_env demo_world 0 = Some (IntKey 1)"
    "size_value trap_env demo_world 1 = Some (IntKey 1)"
    "size_value trap_env demo_world 2 = Some (IntKey 0)"
    "size_value trap_env demo_world 3 = Some (IntKey 1)"
    by (simp_all add: size_value_def demo_world_def)
  have dg: "sha1_value trap_env demo_world 0 \<noteq> None" "sha1_value trap_env demo_world 1 \<noteq> None"
    "sha1_value trap_env demo_world 3 \<noteq> None" "sha1_value trap_env demo_world 2 = None"
    by (simp_all add: sha1_value_def demo_world_def)
  have 1: "\<forall>a \<in> set [3]. size_value trap_env demo_world a \<noteq> size_value trap_env demo_world 2"
    by (simp add: sz)
  have 2: "(2::nat) \<in> set [0, 1, 2]" by simp
  have 3: "cached_sha1 (heap demo_world 2) = None" by (simp add: demo_world_def)
  note inst = short_circuit_on_size [OF set_order_id 2 1]
  have "\<exists>matched no_match w'. ?run = Inr ((matched, no_match), w') \<and>
     2 \<in> set no_match \<and> 2 \<notin> set matched \<and> cached_sha1 (heap w' 2) = None"
  proof (cases ?run)
    case (Inl err)
    with inst have
      "(\<exists>x \<in> set [0, 1, 2] \<union> set [3]. size_value trap_env demo_world x = None) \<or>
       (\<exists>x \<in> set [0, 1, 2]. \<exists>a \<in> set [3].
          x \<noteq> 2 \<and> a \<noteq> 2 \<and> size_value trap_env demo_world x = size_value trap_env demo_world a \<and>
          (sha1_value trap_env demo_world x = None \<or> sha1_value trap_env demo_world a = None))"
      by (simp only: sum.case)
    with sz dg(1,2,3) have False by auto
    then show ?thesis ..
  next
    case (Inr res)
    obtain matched no_match w' where res: "res = ((matched, no_match), w')" by (metis surj_pair)
    with inst Inr have "2 \<in> set no_match \<and> 2 \<notin> set matched \<and>
        cached_sha1 (heap w' 2) = cached_sha1 (heap demo_world 2)"
      by (simp del: match_by.simps)
    with Inr res 3 show ?thesis by (simp del: match_by.simps)
  qed
  moreover have "size_value trap_env demo_world 3 \<noteq> size_value trap_env demo_world 2"
    by (simp add: sz)
  ultimately show ?thesis using dg(4) by blast
qed

text \<open>
  C3. A scratch descriptor of the same size as the only archive descriptor, but of a
  different digest, is classified as unmatched and not as matched by the key sequence
  size, digest. The run fails only when a size or a digest cannot be read.
\<close>

theorem equal_size_different_digest:
  assumes "set_order set_iter"
    and "a \<in> set scratch"
    and "size_value e w a = size_value e w b"
    and "sha1_value e w a \<noteq> sha1_value e w b"
  shows "case match_by set_iter w scratch [b] [size_key e, sha1_key e] of
           Inl err \<Rightarrow>
             (\<exists>x \<in> set scratch \<union> {b}. size_value e w x = None \<or> sha1_value e w x = None)
         | Inr ((matched, no_match), w') \<Rightarrow> a \<in> set no_match \<and> a \<notin> set matched"
proof (cases "match_by set_iter w scratch [b] [size_key e, sha1_key e]")
  case (Inl err)
  with match_by_keys_Inl [OF assms(1) Inl] show ?thesis by simp
next
  case (Inr res)
  obtain matched no_match w' where res: "res = ((matched, no_match), w')" by (metis surj_pair)
  note run = Inr [unfolded res]
  have "a \<in> set no_match" "a \<notin> set matched"
    using match_by_keys_sets(1,2) [OF assms(1) run] assms(2,4) by auto
  then show ?thesis using run by simp
qed

theorem equal_size_different_digest_witness:
  "size_value demo_env demo_world 0 = size_value demo_env demo_world 1 \<and>
   sha1_value demo_env demo_world 0 \<noteq> sha1_value demo_env demo_world 1 \<and>
   (\<exists>matched no_match w'.
      match_by rev demo_world [0] [1] [size_key demo_env, sha1_key demo_env]
        = Inr ((matched, no_match), w') \<and>
      0 \<in> set no_match \<and> 0 \<notin> set matched)"
proof -
  obtain w' where run:
    "match_by rev demo_world [0] [1] [size_key demo_env, sha1_key demo_env] = Inr (([], [0]), w')"
    using demo_run_sizes by blast
  have 1: "size_value demo_env demo_world 0 = size_value demo_env demo_world 1"
    by (simp add: size_value_def demo_world_def)
  have 2: "sha1_value demo_env demo_world 0 \<noteq> sha1_value demo_env demo_world 1"
    by (simp add: sha1_value_def demo_world_def sha1_table_def)
  have 3: "(0::nat) \<in> set [0]" by simp
  from equal_size_different_digest [OF set_order_rev 3 1 2] run
  have "0 \<in> set [0::nat] \<and> 0 \<notin> set ([]::nat list)" by (simp del: match_by.simps)
  with run have "\<exists>matched no_match w'.
      match_by rev demo_world [0] [1] [size_key demo_env, sha1_key demo_env]
        = Inr ((matched, no_match), w') \<and>
      0 \<in> set no_match \<and> 0 \<notin> set matched"
    by blast
  with 1 2 show ?thesis by blast
qed

text \<open>
  C4. Once a size or a digest is cached, every later access returns the cached value and
  leaves the state as it is: nothing is recomputed and nothing is appended to the log of
  input and output. An access that returns has filled the cache with the value it
  returned, and from then on the value does not depend on the environment any more. No
  access, to this or to another descriptor, changes a cached value.
\<close>

theorem cached_attributes:
  "(cached_size (heap w r) = Some n \<longrightarrow> LazyFile_size e w r = Inr (n, w)) \<and>
   (cached_sha1 (heap w r) = Some d \<longrightarrow> LazyFile_sha1 e w r = Inr (d, w)) \<and>
   (LazyFile_size e w r = Inr (n, w') \<longrightarrow>
      cached_size (heap w' r) = Some n \<and> (\<forall>e'. LazyFile_size e' w' r = Inr (n, w'))) \<and>
   (LazyFile_sha1 e w r = Inr (d, w') \<longrightarrow>
      cached_sha1 (heap w' r) = Some d \<and> (\<forall>e'. LazyFile_sha1 e' w' r = Inr (d, w'))) \<and>
   (LazyFile_size e w x = Inr (n', w') \<or> LazyFile_sha1 e w x = Inr (d', w') \<longrightarrow>
      (cached_size (heap w r) = Some n \<longrightarrow> cached_size (heap w' r) = Some n) \<and>
      (cached_sha1 (heap w r) = Some d \<longrightarrow> cached_sha1 (heap w' r) = Some d))"
proof (intro conjI impI allI)
  show "LazyFile_size e w r = Inr (n, w)" if "cached_size (heap w r) = Some n"
    using that by (rule LazyFile_size_cached)
  show "LazyFile_sha1 e w r = Inr (d, w)" if "cached_sha1 (heap w r) = Some d"
    using that by (rule LazyFile_sha1_cached)
  show "cached_size (heap w' r) = Some n" if "LazyFile_size e w r = Inr (n, w')"
    using that by (rule LazyFile_size_fills)
  show "LazyFile_size e' w' r = Inr (n, w')" if "LazyFile_size e w r = Inr (n, w')" for e'
    using that by (intro LazyFile_size_cached LazyFile_size_fills)
  show "cached_sha1 (heap w' r) = Some d" if "LazyFile_sha1 e w r = Inr (d, w')"
    using that by (rule LazyFile_sha1_fills)
  show "LazyFile_sha1 e' w' r = Inr (d, w')" if "LazyFile_sha1 e w r = Inr (d, w')" for e'
    using that by (intro LazyFile_sha1_cached LazyFile_sha1_fills)
  show "cached_size (heap w' r) = Some n"
    if "LazyFile_size e w x = Inr (n', w') \<or> LazyFile_sha1 e w x = Inr (d', w')"
      "cached_size (heap w r) = Some n"
    using that LazyFile_size_keeps [of e w x n' w' r n] LazyFile_sha1_keeps [of e w x d' w' r d]
    by auto
  show "cached_sha1 (heap w' r) = Some d"
    if "LazyFile_size e w x = Inr (n', w') \<or> LazyFile_sha1 e w x = Inr (d', w')"
      "cached_sha1 (heap w r) = Some d"
    using that LazyFile_size_keeps [of e w x n' w' r n] LazyFile_sha1_keeps [of e w x d' w' r d]
    by auto
qed

theorem cached_attributes_witness:
  "\<exists>w1 w2.
     LazyFile_size demo_env demo_world 0 = Inr (1, w1) \<and>
     io_log w1 = [Stat ''/s/a.txt''] \<and>
     LazyFile_sha1 demo_env w1 0 = Inr (''86f7e437faa5a7fce15d1ddcb9eaeaea377667b8'', w2) \<and>
     io_log w2 = [Stat ''/s/a.txt'', ReadFile ''/s/a.txt''] \<and>
     getsize stale_env ''/s/a.txt'' = Inl (OSError ''/s/a.txt'') \<and>
     open_rb stale_env ''/s/a.txt'' = Inl (OSError ''/s/a.txt'') \<and>
     LazyFile_size stale_env w2 0 = Inr (1, w2) \<and>
     LazyFile_sha1 stale_env w2 0 = Inr (''86f7e437faa5a7fce15d1ddcb9eaeaea377667b8'', w2)"
proof -
  let ?d = "''86f7e437faa5a7fce15d1ddcb9eaeaea377667b8''"
  obtain w1 where w1: "LazyFile_size demo_env demo_world 0 = Inr (1, w1)"
    "io_log w1 = [Stat ''/s/a.txt'']" "full_path (heap w1 0) = ''/s/a.txt''"
    "cached_sha1 (heap w1 0) = None"
    by (simp add: LazyFile_size_def demo_world_def)
  define w2 where "w2 = w1\<lparr>heap := (heap w1)(0 := (heap w1 0)\<lparr>cached_sha1 := Some ?d\<rparr>),
                            io_log := io_log w1 @ [ReadFile ''/s/a.txt'']\<rparr>"
  have w2: "LazyFile_sha1 demo_env w1 0 = Inr (?d, w2)"
    unfolding LazyFile_sha1_def w1(3,4) w2_def by (simp add: sha1_table_def Let_def)
  have log: "io_log w2 = [Stat ''/s/a.txt'', ReadFile ''/s/a.txt'']"
    by (simp add: w2_def w1(2))
  have gone: "getsize stale_env ''/s/a.txt'' = Inl (OSError ''/s/a.txt'')"
    "open_rb stale_env ''/s/a.txt'' = Inl (OSError ''/s/a.txt'')"
    by (simp_all add: stale_env_def posix_env_def lookup_path_def)
  from cached_attributes [where w = demo_world and r = 0 and n = 1 and e = demo_env and w' = w1]
    w1(1)
  have size1: "cached_size (heap w1 0) = Some 1" by blast
  from cached_attributes [where w = w1 and r = 0 and x = 0 and n = 1 and d = ?d
      and d' = ?d and e = demo_env and w' = w2] w2 size1
  have "cached_size (heap w2 0) = Some 1" "cached_sha1 (heap w2 0) = Some ?d" by blast+
  with cached_attributes [where w = w2 and r = 0 and n = 1 and d = ?d and e = stale_env]
  have "LazyFile_size stale_env w2 0 = Inr (1, w2)" "LazyFile_sha1 stale_env w2 0 = Inr (?d, w2)"
    by blast+
  with w1(1,2) w2 log gone show ?thesis by blast
qed

text \<open>
  C5. In \<open>main\<close> the filter is applied to the scratch list only, before the matcher is
  called: the matcher is called with the scratch list \<open>read_files\<close> returned without
  the ignored descriptors, and with the whole archive list \<open>read_files\<close> returned.
  A scratch descriptor is matched exactly when it is not ignored and some descriptor of
  the whole archive list, ignored or not, has its size and digest; it is unmatched
  exactly when it is not ignored and none has. An ignored scratch descriptor is in
  neither result and the run never touches it; every other scratch descriptor is in one
  of the results. With an output directory the two reports hold
  the paths of the two results. A descriptor is ignored exactly when its path ends with
  \<open>.DS_Store\<close>, \<open>.gdoc\<close>, \<open>.gsheet\<close> or \<open>.gslides\<close>.
\<close>

theorem ignore_filter_scratch_only:
  assumes "set_order set_iter"
    and run: "main set_iter e a w = Inr ((scratch, archive, matched, no_match), w')"
    and rs: "read_files e (args_scratch a) w = (all_scratch, w1)"
    and ra: "read_files e (args_archive a) w1 = (all_archive, w2)"
  shows "archive = all_archive \<and>
         scratch = [f \<leftarrow> all_scratch. \<not> ignored_by_path (heap w2 f)] \<and>
         (\<exists>w3. match_by set_iter w2 [f \<leftarrow> all_scratch. \<not> ignored_by_path (heap w2 f)]
                 all_archive [size_key e, sha1_key e] = Inr ((matched, no_match), w3)) \<and>
         set matched =
           {f \<in> set all_scratch. \<not> ignored_by_path (heap w2 f) \<and>
              (\<exists>a \<in> set all_archive. size_value e w2 a = size_value e w2 f \<and>
                                       sha1_value e w2 a = sha1_value e w2 f)} \<and>
         set no_match =
           {f \<in> set all_scratch. \<not> ignored_by_path (heap w2 f) \<and>
              \<not> (\<exists>a \<in> set all_archive. size_value e w2 a = size_value e w2 f \<and>
                                         sha1_value e w2 a = sha1_value e w2 f)} \<and>
         mset matched + mset no_match = mset scratch \<and>
         (\<forall>f \<in> set all_scratch.
            if ignored_by_path (heap w2 f)
            then f \<notin> set matched \<and> f \<notin> set no_match \<and> heap w' f = heap w2 f
            else f \<in> set matched \<union> set no_match) \<and>
         (\<forall>out. args_output a = Some out \<longrightarrow>
            (\<exists>log. io_log w' = log @
               [WriteFile (path_join out ''duplicates.txt'') (report_text w2 matched),
                WriteFile (path_join out ''missing.txt'') (report_text w2 no_match)])) \<and>
         (\<forall>f. ignored_by_path f =
            (\<exists>pre. full_path f = pre @ ''.DS_Store'' \<or> full_path f = pre @ ''.gdoc'' \<or>
                   full_path f = pre @ ''.gsheet'' \<or> full_path f = pre @ ''.gslides''))"
proof -
  from main_Inr [OF run rs ra] obtain w3 summary where
    ar: "archive = all_archive" and
    sc: "scratch = [f \<leftarrow> all_scratch. \<not> ignored_by_path (heap w2 f)]" and
    mb: "match_by set_iter w2 scratch archive [size_key e, sha1_key e]
           = Inr ((matched, no_match), w3)" and
    hp: "heap w' = heap w3" and
    log: "io_log w' = io_log w3 @ Print summary #
            (case args_output a of
               None \<Rightarrow> []
             | Some out \<Rightarrow>
                 [WriteFile (path_join out ''duplicates.txt'') (report_text w3 matched),
                  WriteFile (path_join out ''missing.txt'') (report_text w3 no_match)])"
    by blast
  have part: "mset matched + mset no_match = mset scratch"
    by (rule match_by_partition [OF assms(1) mb])
  then have "mset (matched @ no_match) = mset scratch" by simp
  then have "set (matched @ no_match) = set scratch" by (rule mset_eq_setD)
  then have sets: "set matched \<union> set no_match = set scratch" by simp
  note rsa = read_files_alloc [OF rs]
  note raa = read_files_alloc [OF ra]
  have each: "if ignored_by_path (heap w2 f)
      then f \<notin> set matched \<and> f \<notin> set no_match \<and> heap w' f = heap w2 f
      else f \<in> set matched \<union> set no_match" if f: "f \<in> set all_scratch" for f
  proof (cases "ignored_by_path (heap w2 f)")
    case True
    then have 1: "f \<notin> set scratch" by (simp add: sc)
    have "f < next_ref w1" using f rsa by simp
    then have 2: "f \<notin> set archive" using raa ar by simp
    have "heap w3 f = heap w2 f" by (rule match_by_keys_untouched [OF mb 1 2])
    with True 1 sets hp show ?thesis by auto
  next
    case False
    with f have "f \<in> set scratch" by (simp add: sc)
    with False sets show ?thesis by auto
  qed
  have paths: "report_text w3 fs = report_text w2 fs" for fs
    by (rule report_text_cong) (rule match_by_keys_full_path [OF mb])
  have reports: "\<exists>log. io_log w' = log @
      [WriteFile (path_join out ''duplicates.txt'') (report_text w2 matched),
       WriteFile (path_join out ''missing.txt'') (report_text w2 no_match)]"
    if "args_output a = Some out" for out
  proof -
    from log that have "io_log w' = (io_log w3 @ [Print summary]) @
      [WriteFile (path_join out ''duplicates.txt'') (report_text w2 matched),
       WriteFile (path_join out ''missing.txt'') (report_text w2 no_match)]"
      by (simp add: paths)
    then show ?thesis by (rule exI [of _ "io_log w3 @ [Print summary]"])
  qed
  have call: "\<exists>w3. match_by set_iter w2 [f \<leftarrow> all_scratch. \<not> ignored_by_path (heap w2 f)]
                 all_archive [size_key e, sha1_key e] = Inr ((matched, no_match), w3)"
    using mb unfolding ar sc by (rule exI)
  have m_set: "set matched =
      {f \<in> set all_scratch. \<not> ignored_by_path (heap w2 f) \<and>
         (\<exists>a \<in> set all_archive. size_value e w2 a = size_value e w2 f \<and>
                                  sha1_value e w2 a = sha1_value e w2 f)}"
    using match_by_keys_sets(1) [OF assms(1) mb] unfolding ar sc by auto
  have n_set: "set no_match =
      {f \<in> set all_scratch. \<not> ignored_by_path (heap w2 f) \<and>
         \<not> (\<exists>a \<in> set all_archive. size_value e w2 a = size_value e w2 f \<and>
                                    sha1_value e w2 a = sha1_value e w2 f)}"
    using match_by_keys_sets(2) [OF assms(1) mb] unfolding ar sc by auto
  show ?thesis
  proof (intro conjI ballI allI impI)
    show "archive = all_archive" by (rule ar)
    show "scratch = [f \<leftarrow> all_scratch. \<not> ignored_by_path (heap w2 f)]" by (rule sc)
    show "\<exists>w3. match_by set_iter w2 [f \<leftarrow> all_scratch. \<not> ignored_by_path (heap w2 f)]
                 all_archive [size_key e, sha1_key e] = Inr ((matched, no_match), w3)"
      by (rule call)
    show "set matched =
      {f \<in> set all_scratch. \<not> ignored_by_path (heap w2 f) \<and>
         (\<exists>a \<in> set all_archive. size_value e w2 a = size_value e w2 f \<and>
                                  sha1_value e w2 a = sha1_value e w2 f)}"
      by (rule m_set)
    show "set no_match =
      {f \<in> set all_scratch. \<not> ignored_by_path (heap w2 f) \<and>
         \<not> (\<exists>a \<in> set all_archive. size_value e w2 a = size_value e w2 f \<and>
                                    sha1_value e w2 a = sha1_value e w2 f)}"
      by (rule n_set)
    show "mset matched + mset no_match = mset scratch" by (rule part)
    show "if ignored_by_path (heap w2 f)
      then f \<notin> set matched \<and> f \<notin> set no_match \<and> heap w' f = heap w2 f
      else f \<in> set matched \<union> set no_match" if "f \<in> set all_scratch" for f
      using that by (rule each)
    show "\<exists>log. io_log w' = log @
      [WriteFile (path_join out ''duplicates.txt'') (report_text w2 matched),
       WriteFile (path_join out ''missing.txt'') (report_text w2 no_match)]"
      if "args_output a = Some out" for out
      using that by (rule reports)
    show "ignored_by_path f =
            (\<exists>pre. full_path f = pre @ ''.DS_Store'' \<or> full_path f = pre @ ''.gdoc'' \<or>
                   full_path f = pre @ ''.gsheet'' \<or> full_path f = pre @ ''.gslides'')" for f
      by (rule ignored_by_path_iff)
  qed
qed

theorem ignore_filter_scratch_only_witness:
  "\<exists>w'. main id noise_env noise_args empty_world = Inr (([0], [2], [0], []), w') \<and>
         heap w' 1 = \<lparr>full_path = ''/s/.DS_Store'', cached_size = None, cached_sha1 = None\<rparr> \<and>
         full_path (heap w' 2) = ''/a/.DS_Store'' \<and>
         ignored_by_path (heap w' 2)"
proof -
  obtain w' where run: "main id noise_env noise_args empty_world = Inr (([0], [2], [0], []), w')"
    and ar: "full_path (heap w' 2) = ''/a/.DS_Store''"
    using noise_main by blast
  obtain w1 where rs: "read_files noise_env (args_scratch noise_args) empty_world = ([0, 1], w1)"
    using noise_reads by blast
  obtain w2 where ra: "read_files noise_env (args_archive noise_args) w1 = ([2], w2)"
    and h1: "heap w2 1 = \<lparr>full_path = ''/s/.DS_Store'', cached_size = None, cached_sha1 = None\<rparr>"
    using noise_reads_archive rs by auto
  have ign: "ignored_by_path (heap w2 1)"
    unfolding h1 by (simp add: ignored_by_path_def IGNORED_FILES_def endswith_def)
  have ign2: "ignored_by_path (heap w' 2)"
    unfolding ignored_by_path_def ar by (simp add: IGNORED_FILES_def endswith_def)
  note inst = ignore_filter_scratch_only [OF set_order_id_fun run rs ra]
  from inst
  have "\<forall>f \<in> set [0, 1].
          if ignored_by_path (heap w2 f)
          then f \<notin> set [0::nat] \<and> f \<notin> set ([]::nat list) \<and> heap w' f = heap w2 f
          else f \<in> set [0] \<union> set []"
    by (elim conjE)
  with ign have "heap w' 1 = heap w2 1" by simp
  with run ar h1 ign2 show ?thesis by simp
qed

text \<open>
  C6, as the code has it. The archive is grouped by the first key function even when
  the scratch collection is empty. With an empty scratch collection the matcher returns
  two empty lists, unless the first key function raises on an archive descriptor: then
  it fails with that error, and it fails in no other way. With an empty archive and at
  least one key function it returns no matched descriptor and the whole scratch
  collection as unmatched, unless the first key function raises on a scratch descriptor:
  then it fails with that error, and it fails in no other way.
\<close>

theorem empty_inputs:
  assumes "set_order set_iter"
  shows "(case match_by set_iter s [] archive funcs of
            Inl err \<Rightarrow> funcs \<noteq> [] \<and> (\<exists>t. \<exists>r \<in> set archive. hd funcs t r = Inl err)
          | Inr ((matched, unmatched), s') \<Rightarrow> matched = [] \<and> unmatched = []) \<and>
         (case match_by set_iter s scratch [] (func # later) of
            Inl err \<Rightarrow> (\<exists>t. \<exists>r \<in> set scratch. func t r = Inl err)
          | Inr ((matched, unmatched), s') \<Rightarrow>
              matched = [] \<and> mset unmatched = mset scratch)"
proof
  show "case match_by set_iter s [] archive funcs of
          Inl err \<Rightarrow> funcs \<noteq> [] \<and> (\<exists>t. \<exists>r \<in> set archive. hd funcs t r = Inl err)
        | Inr ((matched, unmatched), s') \<Rightarrow> matched = [] \<and> unmatched = []"
  proof (cases funcs)
    case Nil
    then show ?thesis by simp
  next
    case (Cons f fs)
    show ?thesis
    proof (cases "group_by archive f s")
      case (Inl err)
      with group_by_raised [OF Inl] Cons show ?thesis
        by (simp add: match_by_empty_scratch [OF assms] del: match_by.simps)
    next
      case (Inr res)
      obtain ag s' where "res = (ag, s')" by (cases res)
      with Inr Cons show ?thesis
        by (simp add: match_by_empty_scratch [OF assms] del: match_by.simps)
    qed
  qed
next
  show "case match_by set_iter s scratch [] (func # later) of
          Inl err \<Rightarrow> (\<exists>t. \<exists>r \<in> set scratch. func t r = Inl err)
        | Inr ((matched, unmatched), s') \<Rightarrow> matched = [] \<and> mset unmatched = mset scratch"
  proof (cases "match_by set_iter s scratch [] (func # later)")
    case (Inl err)
    then have "group_by scratch func s = Inl err"
      by (auto simp: match_by_empty_archive [OF assms] simp del: match_by.simps split: sum.splits)
    from group_by_raised [OF this] Inl show ?thesis by simp
  next
    case (Inr res)
    obtain m n s' where res: "res = ((m, n), s')" by (metis surj_pair)
    from Inr res have "m = []"
      by (auto simp: match_by_empty_archive [OF assms] simp del: match_by.simps split: sum.splits)
    with match_by_partition [OF assms Inr [unfolded res]] Inr res show ?thesis by simp
  qed
qed

theorem empty_inputs_witness:
  "(\<exists>matched unmatched w'.
      match_by rev demo_world [] [3] [size_key demo_env, sha1_key demo_env]
        = Inr ((matched, unmatched), w') \<and> matched = [] \<and> unmatched = []) \<and>
   (\<exists>matched unmatched w'.
      match_by rev demo_world [0, 2] [] [size_key demo_env, sha1_key demo_env]
        = Inr ((matched, unmatched), w') \<and> matched = [] \<and> mset unmatched = mset [0, 2])"
proof -
  obtain w1 where run1:
    "match_by rev demo_world [] [3] [size_key demo_env, sha1_key demo_env] = Inr (([], []), w1)"
    using demo_run_empty_scratch by blast
  obtain w2 where run2:
    "match_by rev demo_world [0, 2] [] [size_key demo_env, sha1_key demo_env]
       = Inr (([], [2, 0]), w2)"
    using demo_run_empty_archive by blast
  from empty_inputs [OF set_order_rev, where s = demo_world and archive = "[3]"
         and funcs = "[size_key demo_env, sha1_key demo_env]" and scratch = "[0, 2]"
         and func = "size_key demo_env" and later = "[sha1_key demo_env]"] run1 run2
  show ?thesis by (simp del: match_by.simps)
qed

text \<open>
  C6, as stated, fails: with an empty scratch collection and an archive descriptor whose
  file is gone, the matcher does not return two empty lists. It asks the archive
  descriptor for its size and fails with the error of \<open>os.path.getsize\<close>.
\<close>

theorem empty_scratch_counterexample:
  "getsize stale_env ''/a/x.bin'' = Inl (OSError ''/a/x.bin'') \<and>
   match_by id demo_world [] [3] [size_key stale_env, sha1_key stale_env]
     = Inl (OSError ''/a/x.bin'')"
  by (simp add: group_by_def size_key_def LazyFile_size_def demo_world_def stale_env_def
        posix_env_def lookup_path_def)

text \<open>
  C7. With an empty list of key functions the matcher returns the whole scratch
  collection as matched and nothing as unmatched, whatever the two collections are, and
  leaves the state as it was.
\<close>

theorem match_by_no_keys:
  "match_by set_iter s scratch archive [] = Inr ((scratch, []), s)"
  by simp

text \<open>
  C8. For a non-empty list of descriptors and a file that can be opened, the report
  writer writes the descriptors' paths in sorted order (strings compared character by
  character), each followed by a newline. The example of the specification:
  for \<open>/s/z.txt\<close> and \<open>/s/b.txt\<close> the text is \<open>/s/b.txt\<close>, newline,
  \<open>/s/z.txt\<close>, newline.
\<close>

theorem write_paths_sorted_lines:
  assumes "files \<noteq> []" and "open_w e out_file = None"
  shows "\<exists>paths. sorted paths \<and> mset paths = mset (map (\<lambda>f. full_path (heap w f)) files) \<and>
           write_paths_to_file e w files out_file =
             Inr (w\<lparr>io_log := io_log w @
                    [WriteFile out_file (concat (map (\<lambda>p. p @ ''\<newline>'') paths))]\<rparr>)"
proof -
  let ?paths = "sort (map (\<lambda>f. full_path (heap w f)) files)"
  have "?paths \<noteq> []" using assms(1) by (metis length_sort length_map length_0_conv)
  then have "str_join ''\<newline>'' ?paths @ ''\<newline>'' = concat (map (\<lambda>p. p @ ''\<newline>'') ?paths)"
    by (rule str_join_lines)
  then have "write_paths_to_file e w files out_file =
      Inr (w\<lparr>io_log := io_log w @ [WriteFile out_file (concat (map (\<lambda>p. p @ ''\<newline>'') ?paths))]\<rparr>)"
    using assms(2) by (simp add: write_paths_to_file_def)
  moreover have "sorted ?paths" "mset ?paths = mset (map (\<lambda>f. full_path (heap w f)) files)"
    by simp_all
  ultimately show ?thesis by blast
qed

theorem write_paths_sorted_lines_witness:
  "write_paths_to_file demo_env report_world [1, 2] ''/out/missing.txt'' =
     Inr (report_world\<lparr>io_log :=
            [WriteFile ''/out/missing.txt'' ''/s/b.txt\<newline>/s/z.txt\<newline>'']\<rparr>)"
proof -
  have ne: "[1, 2::nat] \<noteq> []" by simp
  from write_paths_sorted_lines [OF ne demo_open_w(1), of report_world]
  obtain paths where p: "sorted paths"
    "mset paths = mset (map (\<lambda>f. full_path (heap report_world f)) [1, 2])"
    "write_paths_to_file demo_env report_world [1, 2] ''/out/missing.txt'' =
       Inr (report_world\<lparr>io_log := io_log report_world @
              [WriteFile ''/out/missing.txt'' (concat (map (\<lambda>p. p @ ''\<newline>'') paths))]\<rparr>)"
    by blast
  have "paths = sort (map (\<lambda>f. full_path (heap report_world f)) [1, 2])"
    using p(1,2) by (rule sorted_perm_unique)
  also have "\<dots> = [''/s/b.txt'', ''/s/z.txt'']"
    by (simp add: report_world_def)
  finally show ?thesis using p(3) by (simp add: report_world_def)
qed

text \<open>
  C9, as the code has it. For a root that does not exist or is not accessible
  (\<open>os.path.isfile\<close> is false and \<open>os.walk\<close> yields nothing) \<open>read_files\<close>
  raises nothing and returns an empty list of descriptors, after printing that the root
  holds 0 files; the run goes on to the matcher. With both roots missing and no output
  directory \<open>main\<close> ends normally with empty results.
\<close>

theorem missing_root_reads_empty:
  assumes "set_order set_iter"
  shows "(\<not> isfile e d \<longrightarrow> walk e d = [] \<longrightarrow>
            read_files e d w =
              ([], w\<lparr>io_log := io_log w @
                        [Print (''A total of 0 were contained in '' @ d)]\<rparr>)) \<and>
         (\<not> isfile e (args_scratch a) \<longrightarrow> walk e (args_scratch a) = [] \<longrightarrow>
          \<not> isfile e (args_archive a) \<longrightarrow> walk e (args_archive a) = [] \<longrightarrow>
          args_output a = None \<longrightarrow>
            (\<exists>w'. main set_iter e a w = Inr (([], [], [], []), w')))"
proof (intro conjI impI)
  assume "\<not> isfile e d" "walk e d = []"
  then show "read_files e d w =
      ([], w\<lparr>io_log := io_log w @ [Print (''A total of 0 were contained in '' @ d)]\<rparr>)"
    by (rule read_files_missing)
next
  assume s: "\<not> isfile e (args_scratch a)" "walk e (args_scratch a) = []"
    and a: "\<not> isfile e (args_archive a)" "walk e (args_archive a) = []"
    and out: "args_output a = None"
  note rs = read_files_missing [OF s, of w]
  note ra = read_files_missing [OF a]
  have mb: "match_by set_iter w2 [] [] [size_key e, sha1_key e] = Inr (([], []), w2)" for w2
    by (simp add: match_by_empty_scratch [OF assms] group_by_def del: match_by.simps)
  show "\<exists>w'. main set_iter e a w = Inr (([], [], [], []), w')"
    by (simp only: main_def Let_def rs ra prod.case filter.simps mb sum.case out option.case)
       blast
qed

theorem missing_root_reads_empty_witness:
  "\<not> isfile demo_env ''/nope'' \<and> walk demo_env ''/nope'' = [] \<and>
   \<not> isfile demo_env ''/gone'' \<and> walk demo_env ''/gone'' = [] \<and>
   read_files demo_env ''/nope'' empty_world =
     ([], empty_world\<lparr>io_log := [Print ''A total of 0 were contained in /nope'']\<rparr>) \<and>
   (\<exists>w'. main id demo_env
           \<lparr>args_archive = ''/nope'', args_scratch = ''/gone'', args_output = None\<rparr>
           empty_world = Inr (([], [], [], []), w'))"
proof -
  let ?a = "\<lparr>args_archive = ''/nope'', args_scratch = ''/gone'', args_output = None\<rparr>"
  have 1: "\<not> isfile demo_env ''/nope''" "walk demo_env ''/nope'' = []"
    "\<not> isfile demo_env ''/gone''" "walk demo_env ''/gone'' = []"
    by (simp_all add: demo_env_def posix_env_def lookup_path_def demo_tree_def)
  note inst = missing_root_reads_empty [OF set_order_id_fun, where e = demo_env
      and d = "''/nope''" and w = empty_world and a = ?a]
  from inst 1(1,2)
  have "read_files demo_env ''/nope'' empty_world =
     ([], empty_world\<lparr>io_log := io_log empty_world @
         [Print (''A total of 0 were contained in '' @ ''/nope'')]\<rparr>)"
    by blast
  then have 2: "read_files demo_env ''/nope'' empty_world =
     ([], empty_world\<lparr>io_log := [Print ''A total of 0 were contained in /nope'']\<rparr>)"
    by (simp add: empty_world_def)
  have "\<exists>w'. main id demo_env ?a empty_world = Inr (([], [], [], []), w')"
    using inst 1 by simp
  with 1 2 show ?thesis by blast
qed

text \<open>
  C9, as stated, fails: with an archive root that does not exist the run does not abort.
  It ends normally and reports the scratch file that is not ignored as missing.
\<close>

theorem missing_archive_counterexample:
  "lookup_path noise_tree ''/nope'' = None \<and>
   map_sum id fst
     (main id noise_env
        \<lparr>args_archive = ''/nope'', args_scratch = ''/s'', args_output = None\<rparr> empty_world)
     = Inr ([0], [], [], [0])"
  by (simp add: main_def read_files_def noise_env_def posix_env_def lookup_path_def
        noise_tree_def empty_world_def new_LazyFile_def path_join_def str_nat.simps digit_char_def
        ignored_by_path_def IGNORED_FILES_def endswith_def
        group_by_def size_key_def LazyFile_size_def getitem_def Let_def)

text \<open>
  C10. For an empty list of descriptors the report writer still writes the file, and the
  text is a single newline. In a run of \<open>main\<close> with an output directory and no
  matched descriptor, \<open>duplicates.txt\<close> is written with a single newline as its text.
\<close>

theorem empty_report_single_newline:
  "(open_w e out_file = None \<longrightarrow>
      write_paths_to_file e w [] out_file =
        Inr (w\<lparr>io_log := io_log w @ [WriteFile out_file ''\<newline>'']\<rparr>)) \<and>
   (main set_iter e a w = Inr ((scratch, archive, [], no_match), w') \<longrightarrow>
    args_output a = Some out \<longrightarrow>
      WriteFile (path_join out ''duplicates.txt'') ''\<newline>'' \<in> set (io_log w'))"
proof (intro conjI impI)
  assume "open_w e out_file = None"
  then show "write_paths_to_file e w [] out_file =
      Inr (w\<lparr>io_log := io_log w @ [WriteFile out_file ''\<newline>'']\<rparr>)"
    by (rule write_paths_empty)
next
  assume run: "main set_iter e a w = Inr ((scratch, archive, [], no_match), w')"
    and out: "args_output a = Some out"
  obtain all_scratch w1 where rs: "read_files e (args_scratch a) w = (all_scratch, w1)"
    by (cases "read_files e (args_scratch a) w")
  obtain all_archive w2 where ra: "read_files e (args_archive a) w1 = (all_archive, w2)"
    by (cases "read_files e (args_archive a) w1")
  from main_Inr [OF run rs ra] out obtain w3 summary where
    "io_log w' = io_log w3 @ Print summary #
       [WriteFile (path_join out ''duplicates.txt'') (report_text w3 []),
        WriteFile (path_join out ''missing.txt'') (report_text w3 no_match)]"
    by auto
  then show "WriteFile (path_join out ''duplicates.txt'') ''\<newline>'' \<in> set (io_log w')"
    by (simp add: report_text_def)
qed

theorem empty_report_single_newline_witness:
  "write_paths_to_file noise_env empty_world [] ''/out/duplicates.txt'' =
     Inr (empty_world\<lparr>io_log := [WriteFile ''/out/duplicates.txt'' ''\<newline>'']\<rparr>) \<and>
   (\<exists>w'. main id noise_env lost_archive_args empty_world = Inr (([0], [], [], [0]), w') \<and>
         WriteFile ''/out/duplicates.txt'' ''\<newline>'' \<in> set (io_log w'))"
proof -
  obtain w' where run:
    "main id noise_env lost_archive_args empty_world = Inr (([0], [], [], [0]), w')"
    using noise_main_lost_archive by blast
  have out: "args_output lost_archive_args = Some ''/out''"
    by (simp add: lost_archive_args_def)
  have dup: "path_join ''/out'' ''duplicates.txt'' = ''/out/duplicates.txt''"
    by (simp add: path_join_def)
  note inst = empty_report_single_newline [where e = noise_env and w = empty_world
      and out_file = "''/out/duplicates.txt''" and set_iter = id and a = lost_archive_args
      and scratch = "[0]" and archive = "[]" and no_match = "[0]" and w' = w'
      and out = "''/out''"]
  from inst noise_open_w have 1:
    "write_paths_to_file noise_env empty_world [] ''/out/duplicates.txt'' =
       Inr (empty_world\<lparr>io_log := io_log empty_world @
              [WriteFile ''/out/duplicates.txt'' ''\<newline>'']\<rparr>)"
    by blast
  from inst run out have 2:
    "WriteFile (path_join ''/out'' ''duplicates.txt'') ''\<newline>'' \<in> set (io_log w')"
    by blast
  from 1 have "write_paths_to_file noise_env empty_world [] ''/out/duplicates.txt'' =
     Inr (empty_world\<lparr>io_log := [WriteFile ''/out/duplicates.txt'' ''\<newline>'']\<rparr>)"
    by (simp add: empty_world_def)
  with 2 run show ?thesis unfolding dup by blast
qed

end
